theory Spec2Isabelle
  imports Main
begin

section \<open>Byte strings and positions (moln.lexer)\<close>

text \<open>
  A Python \<open>bytes\<close> object is a list of 8-bit characters. A position is the pair
  \<open>(line, character)\<close> of Python integers that the lexer threads through.
\<close>

type_synonym bytes = "char list"
type_synonym position = "int \<times> int"

abbreviation newline :: char where
  "newline \<equiv> CHR 0x0A"

text \<open>\<open>bytes.count(b)\<close> for a pattern \<open>b\<close> of one byte: the number of occurrences.\<close>

definition bytes_count :: "bytes \<Rightarrow> char \<Rightarrow> nat" where
  "bytes_count s c = length (filter (\<lambda>x. x = c) s)"

text \<open>\<open>bytes.rfind(b)\<close> for a pattern of one byte: the highest index holding it, -1 if none.\<close>

fun bytes_rfind :: "bytes \<Rightarrow> char \<Rightarrow> int" where
  "bytes_rfind [] c = - 1"
| "bytes_rfind (x # xs) c =
     (let r = bytes_rfind xs c
      in if 0 \<le> r then r + 1 else if x = c then 0 else - 1)"

text \<open>\<open>get_new_position(source_delta, start_position)\<close>, lexer/__init__.py lines 107-117.\<close>

definition get_new_position :: "bytes \<Rightarrow> position \<Rightarrow> position" where
  "get_new_position source_delta start_position =
     (case start_position of (start_line, start_character) \<Rightarrow>
        let new_lines = int (bytes_count source_delta newline);
            end_line = start_line + new_lines;
            end_character = start_character + int (length source_delta);
            end_character' =
              (if 0 < new_lines
               then int (length source_delta) - bytes_rfind source_delta newline - 1
               else end_character)
        in (end_line, end_character'))"

text \<open>
  The specification's \<open>advance(start, consumed)\<close> is \<open>get_new_position\<close> with the
  arguments in the specification's order.
\<close>

definition advance :: "position \<Rightarrow> bytes \<Rightarrow> position" where
  "advance p consumed = get_new_position consumed p"

section \<open>Python values and exceptions\<close>

text \<open>
  The objects that \<open>encode_bytes\<close> is annotated to take, which are also the objects the
  decoder builds: \<open>bytes\<close>, \<open>str\<close> (a sequence of Unicode code points), \<open>int\<close>
  (unbounded), \<open>list\<close>, \<open>dict\<close> (its items in insertion order) and \<open>None\<close>.
\<close>

datatype pyval =
    PyBytes bytes
  | PyStr "nat list"
  | PyInt int
  | PyList "pyval list"
  | PyDict "(pyval \<times> pyval) list"
  | PyNone

text \<open>
  The parser state of funcparserlib: the index of the next token and the highest index
  reached so far.
\<close>

record pstate =
  pos :: nat
  smax :: nat

text \<open>
  Exceptions as values. \<open>SyntaxError\<close> is \<open>moln.lexer.SyntaxError\<close> (a subclass of
  \<open>LexerError\<close>) with its position and the offending byte; \<open>DecodeError\<close> carries the
  exception it was raised from; \<open>EncodeError\<close> carries the offending object;
  \<open>NoParseError\<close> is funcparserlib's, with its message and state. The others are
  Python's built-in exceptions.
\<close>

datatype error =
    LexerError
  | SyntaxError position char
  | DecodeError error
  | EncodeError pyval
  | NoParseError string pstate
  | TypeError
  | ValueError
  | IndexError
  | UnicodeEncodeError

text \<open>\<open>isinstance(exc, LexerError)\<close>: the class itself and its subclass \<open>SyntaxError\<close>.\<close>

fun is_LexerError :: "error \<Rightarrow> bool" where
  "is_LexerError LexerError = True"
| "is_LexerError (SyntaxError p c) = True"
| "is_LexerError e = False"

section \<open>Python built-ins used by the program\<close>

definition is_digit :: "char \<Rightarrow> bool" where
  "is_digit c = (c \<in> set ''0123456789'')"

definition digit_value :: "char \<Rightarrow> nat" where
  "digit_value c = of_char c - 48"

definition digit_char :: "nat \<Rightarrow> char" where
  "digit_char d = ''0123456789'' ! (d mod 10)"

text \<open>\<open>str(n).encode()\<close> for a length \<open>n\<close>: its decimal digits, no leading zero.\<close>

fun str_nat :: "nat \<Rightarrow> bytes" where
  "str_nat n = (if n < 10 then [digit_char n] else str_nat (n div 10) @ [digit_char (n mod 10)])"

declare str_nat.simps [simp del]

text \<open>
  \<open>int(b)\<close> for a bytes object: the decimal value of a non-empty string of digits, of
  any length (the limit that later interpreters put on the number of digits is not
  modelled). Python also accepts a sign, surrounding whitespace and underscores between
  digits; the program only passes what the patterns \<open>[1-9][0-9]*\<close> and
  \<open>0|[1-9][0-9]*\<close> matched, so every other argument is answered with \<open>ValueError\<close>
  here.
\<close>

definition py_int :: "bytes \<Rightarrow> error + int" where
  "py_int s =
     (if s \<noteq> [] \<and> list_all is_digit s
      then Inr (int (foldl (\<lambda>acc c. 10 * acc + digit_value c) 0 s))
      else Inl ValueError)"

text \<open>
  \<open>bytes(x)\<close> for an int \<open>x\<close>: \<open>x\<close> zero bytes; a negative count raises \<open>ValueError\<close>.
\<close>

definition py_bytes :: "int \<Rightarrow> error + bytes" where
  "py_bytes x = (if x < 0 then Inl ValueError else Inr (replicate (nat x) (CHR 0x00)))"

text \<open>
  \<open>str.encode('utf8')\<close>: one to four bytes for each code point; a surrogate
  (U+D800 to U+DFFF) raises \<open>UnicodeEncodeError\<close>. Code points are below 0x110000.
\<close>

definition utf8_code_point :: "nat \<Rightarrow> error + bytes" where
  "utf8_code_point c =
     (if c < 0x80 then Inr [char_of c]
      else if c < 0x800 then
        Inr [char_of (0xC0 + c div 0x40), char_of (0x80 + c mod 0x40)]
      else if 0xD800 \<le> c \<and> c < 0xE000 then Inl UnicodeEncodeError
      else if c < 0x10000 then
        Inr [char_of (0xE0 + c div 0x1000), char_of (0x80 + c div 0x40 mod 0x40),
             char_of (0x80 + c mod 0x40)]
      else
        Inr [char_of (0xF0 + c div 0x40000 mod 8), char_of (0x80 + c div 0x1000 mod 0x40),
             char_of (0x80 + c div 0x40 mod 0x40), char_of (0x80 + c mod 0x40)])"

fun utf8_encode :: "nat list \<Rightarrow> error + bytes" where
  "utf8_encode [] = Inr []"
| "utf8_encode (c # cs) =
     (case utf8_code_point c of
        Inl e \<Rightarrow> Inl e
      | Inr b \<Rightarrow> (case utf8_encode cs of Inl e \<Rightarrow> Inl e | Inr bs \<Rightarrow> Inr (b @ bs)))"

text \<open>\<open>b''.join(generator)\<close>: the items are computed in order, the first exception wins.\<close>

fun bytes_join :: "(error + bytes) list \<Rightarrow> error + bytes" where
  "bytes_join [] = Inr []"
| "bytes_join (r # rs) =
     (case r of
        Inl e \<Rightarrow> Inl e
      | Inr b \<Rightarrow> (case bytes_join rs of Inl e \<Rightarrow> Inl e | Inr bs \<Rightarrow> Inr (b @ bs)))"

text \<open>\<open>source[i:j]\<close> for \<open>0 \<le> i\<close>: the slice is cut at the end of the buffer, never an error.\<close>

definition slice :: "bytes \<Rightarrow> nat \<Rightarrow> nat \<Rightarrow> bytes" where
  "slice source i j = take (j - i) (drop i source)"

text \<open>
  Building a \<open>dict\<close> from a list of pairs: a key that is a list or a dict is unhashable
  (\<open>TypeError\<close>); a key already present keeps its place and takes the new value.
\<close>

fun hashable :: "pyval \<Rightarrow> bool" where
  "hashable (PyList xs) = False"
| "hashable (PyDict kvs) = False"
| "hashable x = True"

fun dict_setitem :: "(pyval \<times> pyval) list \<Rightarrow> pyval \<Rightarrow> pyval \<Rightarrow> (pyval \<times> pyval) list" where
  "dict_setitem [] k v = [(k, v)]"
| "dict_setitem ((k', v') # d) k v =
     (if k' = k then (k', v) # d else (k', v') # dict_setitem d k v)"

fun dict_update :: "(pyval \<times> pyval) list \<Rightarrow> (pyval \<times> pyval) list \<Rightarrow>
    error + (pyval \<times> pyval) list" where
  "dict_update d [] = Inr d"
| "dict_update d ((k, v) # kvs) =
     (if hashable k then dict_update (dict_setitem d k v) kvs else Inl TypeError)"

definition py_dict :: "(pyval \<times> pyval) list \<Rightarrow> error + (pyval \<times> pyval) list" where
  "py_dict kvs = dict_update [] kvs"

section \<open>The encoder (moln.bencode)\<close>

text \<open>
  \<open>encode_bytes\<close>, bencode/__init__.py lines 32-52, branch by branch in the order of
  its \<open>isinstance\<close> tests. The items of a list and the entries of a dict are encoded in
  order, a key before its value.
\<close>

definition encode_pair :: "(error + bytes) \<times> (error + bytes) \<Rightarrow> error + bytes" where
  "encode_pair kv = bytes_join [fst kv, snd kv]"

primrec encode_bytes :: "pyval \<Rightarrow> error + bytes" where
  "encode_bytes (PyBytes x) = Inr (str_nat (length x) @ '':'' @ x)"
| "encode_bytes (PyStr x) =
     (case utf8_encode x of
        Inl e \<Rightarrow> Inl e
      | Inr b \<Rightarrow> Inr (str_nat (length b) @ '':'' @ b))"
| "encode_bytes (PyInt x) =
     (case py_bytes x of Inl e \<Rightarrow> Inl e | Inr b \<Rightarrow> Inr (''i'' @ b @ ''e''))"
| "encode_bytes (PyList x) =
     (case bytes_join (map encode_bytes x) of
        Inl e \<Rightarrow> Inl e
      | Inr b \<Rightarrow> Inr (''l'' @ b @ ''e''))"
| "encode_bytes (PyDict x) =
     (case bytes_join (map encode_pair (map (map_prod encode_bytes encode_bytes) x)) of
        Inl e \<Rightarrow> Inl e
      | Inr b \<Rightarrow> Inr (''d'' @ b @ ''e''))"
| "encode_bytes PyNone = Inl (EncodeError PyNone)"

text \<open>
  What the specification asks of the integer branch: the decimal digits of \<open>i\<close>, with a
  leading minus sign for a negative number.
\<close>

definition str_int :: "int \<Rightarrow> bytes" where
  "str_int i = (if i < 0 then ''-'' @ str_nat (nat (- i)) else str_nat (nat i))"

section \<open>Tokens and lexical rules (moln.lexer)\<close>

text \<open>
  A compiled pattern of Python's \<open>re\<close> is the function that \<open>pattern.match(source, i)\<close>
  computes: the index where the match that starts at index \<open>i\<close> ends, or \<open>None\<close>. The
  matched text \<open>match.group()\<close> is then \<open>source[i:end]\<close>.
\<close>

type_synonym regex = "bytes \<Rightarrow> nat \<Rightarrow> nat option"

text \<open>
  The class \<open>Token\<close> and its subclass \<open>StringToken\<close> play two roles: a rule ("spec
  mode", \<open>is_spec\<close> set, no value) and a matched token ("token mode", with value, start
  and end). One record holds both, as the class does; \<open>None\<close> is the default of the
  constructor. \<open>StringToken.__init__\<close> stores its own \<open>is_spec\<close> argument, whose
  default \<open>None\<close> is false in a condition.
\<close>

datatype token_class = Token | StringToken

record token =
  cls :: token_class
  name :: string
  tvalue :: "bytes option"
  start :: "position option"
  tend :: "position option"
  is_spec :: bool
  regex :: "regex option"

definition Token_init ::
  "string \<Rightarrow> bytes option \<Rightarrow> position option \<Rightarrow> position option \<Rightarrow> regex option \<Rightarrow> token" where
  "Token_init n v s e r =
     \<lparr>cls = Token, name = n, tvalue = v, start = s, tend = e,
      is_spec = (r \<noteq> None), regex = r\<rparr>"

definition StringToken_init ::
  "string \<Rightarrow> bool \<Rightarrow> bytes option \<Rightarrow> position option \<Rightarrow> position option \<Rightarrow> token" where
  "StringToken_init n sp v s e = (Token_init n v s e None)\<lparr>cls := StringToken, is_spec := sp\<rparr>"

text \<open>
  \<open>Token.__eq__\<close>: equal names and equal values. For a spec-mode \<open>self\<close> the method
  defers to object identity, which answers \<open>NotImplemented\<close> for two distinct objects;
  Python then asks the other operand, and the tokens this program compares against
  (\<open>Token('Type', b'i')\<close> and the like) are never in spec mode, so the answer is the same
  conjunction.
\<close>

definition token_eq :: "token \<Rightarrow> token \<Rightarrow> bool" where
  "token_eq self other = (name self = name other \<and> tvalue self = tvalue other)"

text \<open>\<open>Token.match_spec\<close>, lexer/__init__.py lines 76-104.\<close>

definition Token_match_spec :: "token \<Rightarrow> bytes \<Rightarrow> nat \<Rightarrow> position \<Rightarrow> error + token option" where
  "Token_match_spec self source start_index start_position =
     (if \<not> is_spec self then Inl LexerError
      else case regex self of
        None \<Rightarrow> Inl LexerError
      | Some re \<Rightarrow>
          (case re source start_index of
             None \<Rightarrow> Inr None
           | Some e \<Rightarrow>
               let v = slice source start_index e
               in Inr (Some (Token_init (name self) (Some v) (Some start_position)
                    (Some (get_new_position v start_position)) None))))"

text \<open>
  The pattern \<open>([1-9][0-9]*):\<close> of \<open>StringToken.preamble_re\<close>, matched at index \<open>i\<close>:
  a digit from 1 to 9, the longest run of digits after it, and a colon. (Giving digits
  back cannot help: the byte after a shorter run is a digit, not a colon.) The result is
  \<open>(match.group(0), match.group(1))\<close>.
\<close>

definition preamble_re :: "bytes \<Rightarrow> nat \<Rightarrow> (bytes \<times> bytes) option" where
  "preamble_re source i =
     (case drop i source of
        [] \<Rightarrow> None
      | c # cs \<Rightarrow>
          if is_digit c \<and> c \<noteq> CHR ''0'' then
            (let ds = c # takeWhile is_digit cs
             in case dropWhile is_digit cs of
                  [] \<Rightarrow> None
                | d # rest \<Rightarrow> if d = CHR '':'' then Some (ds @ '':'', ds) else None)
          else None)"

text \<open>\<open>StringToken.match_spec\<close>, bencode/tokens.py lines 118-151.\<close>

definition StringToken_match_spec ::
  "token \<Rightarrow> bytes \<Rightarrow> nat \<Rightarrow> position \<Rightarrow> error + token option" where
  "StringToken_match_spec self source start_index start_position =
     (if \<not> is_spec self then Inl LexerError
      else case preamble_re source start_index of
        None \<Rightarrow> Inr None
      | Some (group0, group1) \<Rightarrow>
          (case py_int group1 of
             Inl e \<Rightarrow> Inl e
           | Inr str_length \<Rightarrow>
               let preamble_length = length group0;
                   str_last = start_index + preamble_length + nat str_length;
                   v = slice source start_index str_last
               in Inr (Some (StringToken_init (name self) False (Some v) (Some start_position)
                    (Some (get_new_position v start_position))))))"

text \<open>Method dispatch on the class of the rule.\<close>

definition match_spec :: "token \<Rightarrow> bytes \<Rightarrow> nat \<Rightarrow> position \<Rightarrow> error + token option" where
  "match_spec spec source start_index start_position =
     (case cls spec of
        Token \<Rightarrow> Token_match_spec spec source start_index start_position
      | StringToken \<Rightarrow> StringToken_match_spec spec source start_index start_position)"

section \<open>The lexer (moln.lexer.Lexer)\<close>

text \<open>
  The inner function \<open>match_specs\<close> of \<open>Lexer.__call__\<close>: the first rule that matches
  wins; when none does, \<open>SyntaxError\<close> with the current position and the byte
  \<open>source[current_index]\<close>.
\<close>

fun match_specs :: "token list \<Rightarrow> bytes \<Rightarrow> nat \<Rightarrow> position \<Rightarrow> error + token" where
  "match_specs [] source current_index current_position =
     (if current_index < length source
      then Inl (SyntaxError current_position (source ! current_index))
      else Inl IndexError)"
| "match_specs (spec # specs) source current_index current_position =
     (case match_spec spec source current_index current_position of
        Inl e \<Rightarrow> Inl e
      | Inr (Some tok) \<Rightarrow> Inr tok
      | Inr None \<Rightarrow> match_specs specs source current_index current_position)"

text \<open>
  The loop of \<open>Lexer.__call__\<close>, lines 146-151, collected into a list as
  \<open>list(tokenize(...))\<close> does. A rule that matches the empty string makes the loop run
  forever; not returning is the value \<open>None\<close>. A token without a value or an end position
  would raise \<open>TypeError\<close> (in \<open>len(token.value)\<close>, or when the next match unpacks the
  position).
\<close>

definition yield :: "token \<Rightarrow> error + token list \<Rightarrow> error + token list" where
  "yield tok r = (case r of Inl e \<Rightarrow> Inl e | Inr toks \<Rightarrow> Inr (tok # toks))"

partial_function (option) Lexer_loop ::
  "token list \<Rightarrow> bytes \<Rightarrow> nat \<Rightarrow> position \<Rightarrow> (error + token list) option" where
  "Lexer_loop specs source current_index current_position =
     (if current_index < length source then
        (case match_specs specs source current_index current_position of
           Inl e \<Rightarrow> Some (Inl e)
         | Inr tok \<Rightarrow>
             (case (tvalue tok, tend tok) of
                (Some v, Some e) \<Rightarrow>
                  Option.bind (Lexer_loop specs source (current_index + length v) e)
                    (\<lambda>rest. Some (yield tok rest))
              | _ \<Rightarrow> Some (Inl TypeError)))
      else Some (Inr []))"

declare Lexer_loop.simps [code]

definition Lexer_call :: "token list \<Rightarrow> bytes \<Rightarrow> (error + token list) option" where
  "Lexer_call specs source = Lexer_loop specs source 0 (0, 0)"

section \<open>The bencode rules (moln.bencode.tokens)\<close>

text \<open>
  The patterns of \<open>tokenize\<close>: \<open>0|[1-9][0-9]*\<close> (the alternative \<open>0\<close> is tried first and
  matches one byte; otherwise a digit from 1 to 9 and the longest run of digits),
  \<open>[ild]\<close> and \<open>e\<close>.
\<close>

definition re_Number :: regex where
  "re_Number source i =
     (case drop i source of
        [] \<Rightarrow> None
      | c # cs \<Rightarrow>
          if c = CHR ''0'' then Some (i + 1)
          else if is_digit c then Some (i + 1 + length (takeWhile is_digit cs))
          else None)"

definition re_Type :: regex where
  "re_Type source i =
     (case drop i source of
        [] \<Rightarrow> None
      | c # cs \<Rightarrow> if c \<in> set ''ild'' then Some (i + 1) else None)"

definition re_End :: regex where
  "re_End source i =
     (case drop i source of
        [] \<Rightarrow> None
      | c # cs \<Rightarrow> if c = CHR ''e'' then Some (i + 1) else None)"

definition bencode_specs :: "token list" where
  "bencode_specs =
     [StringToken_init ''String'' True None None None,
      Token_init ''Number'' None None None (Some re_Number),
      Token_init ''Type'' None None None (Some re_Type),
      Token_init ''End'' None None None (Some re_End)]"

definition tokenize :: "bytes \<Rightarrow> (error + token list) option" where
  "tokenize source = Lexer_call bencode_specs source"

section \<open>Parser combinators (funcparserlib.parser)\<close>

text \<open>
  A parser is its method \<open>run(tokens, s)\<close>: it returns a value and a new state, or raises.
  \<open>NoParseError\<close> is the exception the combinators \<open>|\<close> and \<open>many\<close> catch; any other
  exception passes through them. A run that does not come back is \<open>None\<close>.
\<close>

type_synonym 'a parser = "token list \<Rightarrow> pstate \<Rightarrow> (error + 'a \<times> pstate) option"

definition State :: "nat \<Rightarrow> nat \<Rightarrow> pstate" where
  "State p m = \<lparr>pos = p, smax = m\<rparr>"

text \<open>The wrapper \<open>_Ignored\<close> that \<open>skip\<close> puts around a value.\<close>

datatype 'a ignored = Ignored 'a

text \<open>\<open>some(pred)\<close>: the next token when it satisfies the predicate.\<close>

definition p_some :: "(token \<Rightarrow> bool) \<Rightarrow> token parser" where
  "p_some pred tokens s =
     (if length tokens \<le> pos s then
        Some (Inl (NoParseError ''no tokens left in the stream'' s))
      else
        let t = tokens ! pos s
        in if pred t then
             (let p = pos s + 1 in Some (Inr (t, State p (max p (smax s)))))
           else Some (Inl (NoParseError ''got unexpected token'' s)))"

text \<open>\<open>a(value)\<close>: the next token when it equals \<open>value\<close> (with \<open>Token.__eq__\<close>).\<close>

definition p_a :: "token \<Rightarrow> token parser" where
  "p_a v = p_some (\<lambda>t. token_eq t v)"

text \<open>\<open>p >> f\<close>: apply \<open>f\<close> to the value; an exception raised by \<open>f\<close> propagates.\<close>

definition shift :: "'a parser \<Rightarrow> ('a \<Rightarrow> error + 'b) \<Rightarrow> 'b parser" where
  "shift p f tokens s =
     (case p tokens s of
        None \<Rightarrow> None
      | Some (Inl e) \<Rightarrow> Some (Inl e)
      | Some (Inr (v, s2)) \<Rightarrow>
          (case f v of Inl e \<Rightarrow> Some (Inl e) | Inr w \<Rightarrow> Some (Inr (w, s2))))"

text \<open>\<open>skip(p)\<close> is \<open>p >> _Ignored\<close>.\<close>

definition p_skip :: "'a parser \<Rightarrow> 'a ignored parser" where
  "p_skip p = shift p (\<lambda>v. Inr (Ignored v))"

text \<open>
  \<open>p + q\<close>: run \<open>p\<close>, then \<open>q\<close> from the state \<open>p\<close> left, and combine the two values with
  the library's function \<open>magic\<close>, which drops an \<open>_Ignored\<close> value and pairs two values
  that are not. Its three cases that occur in the grammar are typed apart here.
\<close>

definition p_add :: "('a \<Rightarrow> 'b \<Rightarrow> 'c) \<Rightarrow> 'a parser \<Rightarrow> 'b parser \<Rightarrow> 'c parser" where
  "p_add magic p q tokens s =
     (case p tokens s of
        None \<Rightarrow> None
      | Some (Inl e) \<Rightarrow> Some (Inl e)
      | Some (Inr (v1, s2)) \<Rightarrow>
          (case q tokens s2 of
             None \<Rightarrow> None
           | Some (Inl e) \<Rightarrow> Some (Inl e)
           | Some (Inr (v2, s3)) \<Rightarrow> Some (Inr (magic v1 v2, s3))))"

fun magic_ignored_first :: "'a ignored \<Rightarrow> 'b \<Rightarrow> 'b" where
  "magic_ignored_first (Ignored v1) v2 = v2"

fun magic_ignored_second :: "'a \<Rightarrow> 'b ignored \<Rightarrow> 'a" where
  "magic_ignored_second v1 (Ignored v2) = v1"

definition magic_tuple :: "'a \<Rightarrow> 'b \<Rightarrow> 'a \<times> 'b" where
  "magic_tuple v1 v2 = (v1, v2)"

text \<open>
  \<open>p | q\<close>: when \<open>p\<close> raises \<open>NoParseError\<close>, run \<open>q\<close> from the same position, keeping the
  highest index \<open>p\<close> reached.
\<close>

definition p_alt :: "'a parser \<Rightarrow> 'a parser \<Rightarrow> 'a parser" where
  "p_alt p q tokens s =
     (case p tokens s of
        Some (Inl (NoParseError msg st)) \<Rightarrow> q tokens (State (pos s) (smax st))
      | r \<Rightarrow> r)"

text \<open>
  \<open>many(p)\<close>: run \<open>p\<close> until it raises \<open>NoParseError\<close>, collecting the values. The loop
  has no bound of its own: the first argument is the number of times the model may run
  \<open>p\<close>, and \<open>None\<close> means the budget ran out.
\<close>

fun many_loop :: "nat \<Rightarrow> 'a parser \<Rightarrow> token list \<Rightarrow> pstate \<Rightarrow> 'a list \<Rightarrow>
    (error + 'a list \<times> pstate) option" where
  "many_loop 0 p tokens s res = None"
| "many_loop (Suc k) p tokens s res =
     (case p tokens s of
        None \<Rightarrow> None
      | Some (Inl (NoParseError msg st)) \<Rightarrow> Some (Inr (res, State (pos s) (smax st)))
      | Some (Inl e) \<Rightarrow> Some (Inl e)
      | Some (Inr (v, s2)) \<Rightarrow> many_loop k p tokens s2 (res @ [v]))"

definition p_many :: "nat \<Rightarrow> 'a parser \<Rightarrow> 'a list parser" where
  "p_many k p tokens s = many_loop k p tokens s []"

text \<open>\<open>finished\<close>: succeeds with \<open>None\<close> when no token is left.\<close>

definition p_finished :: "unit parser" where
  "p_finished tokens s =
     (if length tokens \<le> pos s then Some (Inr ((), s))
      else Some (Inl (NoParseError ''should have reached <EOF>'' s)))"

text \<open>
  \<open>Parser.parse(tokens)\<close>: run from \<open>State()\<close> and return the value. A \<open>NoParseError\<close> is
  raised again with the same state; the text of the token at \<open>smax\<close> that the library
  appends to the message is not modelled.
\<close>

definition parse :: "'a parser \<Rightarrow> token list \<Rightarrow> (error + 'a) option" where
  "parse p tokens =
     (case p tokens (State 0 0) of
        None \<Rightarrow> None
      | Some (Inl e) \<Rightarrow> Some (Inl e)
      | Some (Inr (tree, s)) \<Rightarrow> Some (Inr tree))"

section \<open>The bencode grammar (moln.bencode.tokens.decode_tokens)\<close>

text \<open>
  \<open>str_strip_re.sub(b'', s)\<close> with the pattern \<open>^\d+:\<close>: a leading run of digits followed
  by a colon is removed; anything else is returned unchanged.
\<close>

definition str_strip_re_sub :: "bytes \<Rightarrow> bytes" where
  "str_strip_re_sub s =
     (case dropWhile is_digit s of
        [] \<Rightarrow> s
      | d # rest \<Rightarrow> if takeWhile is_digit s \<noteq> [] \<and> d = CHR '':'' then rest else s)"

text \<open>
  The local functions of \<open>decode_tokens\<close>. A token value of \<open>None\<close> makes \<open>int\<close> and
  \<open>re.sub\<close> raise \<open>TypeError\<close>.
\<close>

definition to_int :: "bytes option \<Rightarrow> error + pyval" where
  "to_int tok =
     (case tok of
        None \<Rightarrow> Inl TypeError
      | Some b \<Rightarrow> (case py_int b of Inl e \<Rightarrow> Inl e | Inr i \<Rightarrow> Inr (PyInt i)))"

definition to_string :: "bytes option \<Rightarrow> error + pyval" where
  "to_string s =
     (case s of None \<Rightarrow> Inl TypeError | Some b \<Rightarrow> Inr (PyBytes (str_strip_re_sub b)))"

definition to_list :: "'a list \<Rightarrow> 'a list" where
  "to_list tokens = tokens"

definition to_dict :: "(pyval \<times> pyval) list \<Rightarrow> error + pyval" where
  "to_dict n = (case py_dict (to_list n) of Inl e \<Rightarrow> Inl e | Inr d \<Rightarrow> Inr (PyDict d))"

definition token_value :: "token \<Rightarrow> error + bytes option" where
  "token_value x = Inr (tvalue x)"

definition token_type :: "string \<Rightarrow> bytes option parser" where
  "token_type t = shift (p_some (\<lambda>x. name x = t)) token_value"

definition type_decl :: "bytes \<Rightarrow> token parser" where
  "type_decl type_name = p_a (Token_init ''Type'' (Some type_name) None None None)"

definition integer :: "bytes option parser" where
  "integer = token_type ''Number''"

definition end_tok :: "token parser" where
  "end_tok = p_a (Token_init ''End'' (Some ''e'') None None None)"

definition str_decl :: "pyval parser" where
  "str_decl = shift (token_type ''String'') to_string"

definition integer_decl :: "pyval parser" where
  "integer_decl =
     shift (p_add magic_ignored_second
              (p_add magic_ignored_first (p_skip (type_decl ''i'')) integer)
              (p_skip end_tok))
       to_int"

definition dict_decl :: "nat \<Rightarrow> pyval parser \<Rightarrow> pyval parser" where
  "dict_decl k val =
     shift (p_add magic_ignored_second
              (p_add magic_ignored_first (p_skip (type_decl ''d''))
                 (p_many k (p_add magic_tuple val val)))
              (p_skip end_tok))
       to_dict"

definition list_decl :: "nat \<Rightarrow> pyval parser \<Rightarrow> pyval parser" where
  "list_decl k val =
     shift (p_add magic_ignored_second
              (p_add magic_ignored_first (p_skip (type_decl ''l'')) (p_many k val))
              (p_skip end_tok))
       (\<lambda>vs. Inr (PyList (to_list vs)))"

text \<open>
  The forward-declared rule \<open>value\<close> refers to itself through \<open>dict_decl\<close> and
  \<open>list_decl\<close>. The first argument bounds the depth of that recursion and the runs of each
  \<open>many\<close> inside; \<open>None\<close> means the bound was reached.
\<close>

primrec value_run :: "nat \<Rightarrow> pyval parser" where
  "value_run 0 = (\<lambda>tokens s. None)"
| "value_run (Suc n) =
     p_alt integer_decl
       (p_alt (dict_decl (Suc n) (value_run n))
          (p_alt (list_decl (Suc n) (value_run n)) str_decl))"

definition bencode_decl :: "nat \<Rightarrow> pyval parser" where
  "bencode_decl n = p_add magic_ignored_second (value_run n) (p_skip p_finished)"

text \<open>
  \<open>decode_tokens(s)\<close>: a value nests no deeper than the number of tokens and no \<open>many\<close>
  runs its parser more often than there are tokens plus one, so the bound
  \<open>length s + 1\<close> is never reached (\<open>decode_tokens_returns\<close> below), and whatever
  the grammar returns within any bound is what it returns within this one
  (\<open>decode_tokens_bound_independent\<close>). The interpreter's own limits, on the depth of
  recursion and on memory, are not modelled.
\<close>

definition decode_tokens_bounded :: "nat \<Rightarrow> token list \<Rightarrow> (error + pyval) option" where
  "decode_tokens_bounded n s = parse (bencode_decl n) s"

definition decode_tokens :: "token list \<Rightarrow> (error + pyval) option" where
  "decode_tokens s = decode_tokens_bounded (Suc (length s)) s"

section \<open>The decoder (moln.bencode.decode_bytes)\<close>

text \<open>
  \<open>decode_bytes\<close>, bencode/__init__.py lines 25-29: the token list is built first, then
  parsed; a \<open>LexerError\<close> from either step is raised again as \<open>DecodeError\<close>, any other
  exception leaves the function as it is.
\<close>

definition except_LexerError :: "error \<Rightarrow> error" where
  "except_LexerError exc = (if is_LexerError exc then DecodeError exc else exc)"

definition decode_bytes :: "bytes \<Rightarrow> (error + pyval) option" where
  "decode_bytes source =
     (case tokenize source of
        None \<Rightarrow> None
      | Some (Inl exc) \<Rightarrow> Some (Inl (except_LexerError exc))
      | Some (Inr toks) \<Rightarrow>
          (case decode_tokens toks of
             None \<Rightarrow> None
           | Some (Inl exc) \<Rightarrow> Some (Inl (except_LexerError exc))
           | Some (Inr v) \<Rightarrow> Some (Inr v)))"

section \<open>Notions used to state the properties\<close>

text \<open>The bytes a token carries, and a list of tokens whose positions follow on.\<close>

definition token_bytes :: "token \<Rightarrow> bytes" where
  "token_bytes t = (case tvalue t of None \<Rightarrow> [] | Some v \<Rightarrow> v)"

fun chained :: "position \<Rightarrow> token list \<Rightarrow> bool" where
  "chained p [] = True"
| "chained p (t # ts) =
     (start t = Some p \<and> (case tend t of None \<Rightarrow> False | Some e \<Rightarrow> chained e ts))"

text \<open>A token in token mode, made at index \<open>i\<close> and position \<open>p\<close> of the source.\<close>

definition matched_at :: "bytes \<Rightarrow> nat \<Rightarrow> position \<Rightarrow> token \<Rightarrow> bool" where
  "matched_at source i p tok =
     (\<exists>e. tvalue tok = Some (slice source i e) \<and> start tok = Some p \<and>
          tend tok = Some (get_new_position (slice source i e) p))"

text \<open>
  The four kinds of bencode value, as Python objects: \<open>int\<close>, \<open>bytes\<close>, \<open>list\<close> and
  \<open>dict\<close>.
\<close>

fun bencode_variant :: "pyval \<Rightarrow> bool" where
  "bencode_variant (PyInt i) = True"
| "bencode_variant (PyBytes b) = True"
| "bencode_variant (PyList xs) = True"
| "bencode_variant (PyDict kvs) = True"
| "bencode_variant x = False"

fun is_DecodeError :: "error \<Rightarrow> bool" where
  "is_DecodeError (DecodeError e) = True"
| "is_DecodeError e = False"

text \<open>
  What the bencode rules can emit: a token in token mode named after one of the four
  rules, with a non-empty value that, for a number, consists of digits.
\<close>

definition lexed :: "token \<Rightarrow> bool" where
  "lexed tok =
     (\<exists>v. tvalue tok = Some v \<and> v \<noteq> [] \<and> tend tok \<noteq> None \<and>
          (name tok = ''Number'' \<longrightarrow> list_all is_digit v))"

fun is_SyntaxError :: "error \<Rightarrow> bool" where
  "is_SyntaxError (SyntaxError p c) = True"
| "is_SyntaxError e = False"

text \<open>
  Three properties of a parser on a token list: a successful run never moves the position
  back (and keeps it within the list); it consumes at least one token; it comes back
  from every state with fewer than \<open>m\<close> tokens left.
\<close>

definition steady :: "'a parser \<Rightarrow> token list \<Rightarrow> bool" where
  "steady p tokens =
     (\<forall>s v s'. p tokens s = Some (Inr (v, s')) \<longrightarrow>
        pos s \<le> pos s' \<and> (pos s \<le> length tokens \<longrightarrow> pos s' \<le> length tokens))"

definition advances :: "'a parser \<Rightarrow> token list \<Rightarrow> bool" where
  "advances p tokens =
     (\<forall>s v s'. p tokens s = Some (Inr (v, s')) \<longrightarrow> pos s < pos s' \<and> pos s' \<le> length tokens)"

definition returns_below :: "'a parser \<Rightarrow> token list \<Rightarrow> nat \<Rightarrow> bool" where
  "returns_below p tokens m = (\<forall>s. length tokens - pos s < m \<longrightarrow> p tokens s \<noteq> None)"

text \<open>The exceptions a parser raises on a token list all satisfy \<open>E\<close>.\<close>

definition fails_with :: "'a parser \<Rightarrow> token list \<Rightarrow> (error \<Rightarrow> bool) \<Rightarrow> bool" where
  "fails_with p tokens E = (\<forall>s e. p tokens s = Some (Inl e) \<longrightarrow> E e)"

fun is_NoParseError :: "error \<Rightarrow> bool" where
  "is_NoParseError (NoParseError msg st) = True"
| "is_NoParseError e = False"

text \<open>
  The two ways the grammar fails on tokens of the lexer: funcparserlib's \<open>NoParseError\<close>,
  and the \<open>TypeError\<close> of \<open>dict\<close> for a key that cannot be hashed.
\<close>

definition grammar_failure :: "error \<Rightarrow> bool" where
  "grammar_failure e = (is_NoParseError e \<or> e = TypeError)"

section \<open>The bencoding of the specification\<close>

text \<open>
  The encoding that section 4.4 of the specification words, and that the decoder is meant
  to read back: the decimal digits of an integer between \<open>i\<close> and \<open>e\<close>, the decimal
  length of a byte string, a colon and the bytes, the items of a list between \<open>l\<close> and
  \<open>e\<close>, the entries of a dictionary, key then value, between \<open>d\<close> and \<open>e\<close>. It is
  written from the specification, to be compared with \<open>encode_bytes\<close> and fed to
  \<open>decode_bytes\<close>; the entries of a dictionary are taken as a list of pairs, so that
  a buffer with a repeated key has a pre-image.
\<close>

fun bencoding :: "pyval \<Rightarrow> bytes" where
  "bencoding (PyInt i) = ''i'' @ str_int i @ ''e''"
| "bencoding (PyBytes b) = str_nat (length b) @ '':'' @ b"
| "bencoding (PyList xs) = ''l'' @ concat (map bencoding xs) @ ''e''"
| "bencoding (PyDict kvs) =
     ''d'' @ concat (map (\<lambda>(k, v). bencoding k @ bencoding v) kvs) @ ''e''"
| "bencoding x = []"

text \<open>
  The values whose bencoding the lexer can read: no negative integer (no rule matches
  the minus sign) and no empty byte string (the preamble pattern wants a first digit from
  1 to 9), at any depth.
\<close>

fun decodable :: "pyval \<Rightarrow> bool" where
  "decodable (PyInt i) = (0 \<le> i)"
| "decodable (PyBytes b) = (b \<noteq> [])"
| "decodable (PyList xs) = list_all decodable xs"
| "decodable (PyDict kvs) = list_all (\<lambda>(k, v). decodable k \<and> decodable v) kvs"
| "decodable x = False"

text \<open>The names and values of the tokens that the bencoding of a value is cut into.\<close>

fun symbols :: "pyval \<Rightarrow> (string \<times> bytes option) list" where
  "symbols (PyInt i) =
     [(''Type'', Some ''i''), (''Number'', Some (str_int i)), (''End'', Some ''e'')]"
| "symbols (PyBytes b) = [(''String'', Some (str_nat (length b) @ '':'' @ b))]"
| "symbols (PyList xs) =
     (''Type'', Some ''l'') # concat (map symbols xs) @ [(''End'', Some ''e'')]"
| "symbols (PyDict kvs) =
     (''Type'', Some ''d'') # concat (map (\<lambda>(k, v). symbols k @ symbols v) kvs) @
     [(''End'', Some ''e'')]"
| "symbols x = []"

definition view :: "token \<Rightarrow> string \<times> bytes option" where
  "view t = (name t, tvalue t)"

text \<open>
  What the grammar builds from those tokens: the entries of every dictionary go through
  \<open>dict\<close>, innermost first and in reading order, and the first exception wins.
\<close>

fun sequence :: "(error + 'a) list \<Rightarrow> error + 'a list" where
  "sequence [] = Inr []"
| "sequence (r # rs) =
     (case r of
        Inl e \<Rightarrow> Inl e
      | Inr x \<Rightarrow> (case sequence rs of Inl e \<Rightarrow> Inl e | Inr xs \<Rightarrow> Inr (x # xs)))"

definition both :: "error + 'a \<Rightarrow> error + 'b \<Rightarrow> error + 'a \<times> 'b" where
  "both r1 r2 =
     (case r1 of
        Inl e \<Rightarrow> Inl e
      | Inr x \<Rightarrow> (case r2 of Inl e \<Rightarrow> Inl e | Inr y \<Rightarrow> Inr (x, y)))"

fun decoded :: "pyval \<Rightarrow> error + pyval" where
  "decoded (PyList xs) =
     (case sequence (map decoded xs) of Inl e \<Rightarrow> Inl e | Inr ys \<Rightarrow> Inr (PyList ys))"
| "decoded (PyDict kvs) =
     (case sequence (map (\<lambda>(k, v). both (decoded k) (decoded v)) kvs) of
        Inl e \<Rightarrow> Inl e
      | Inr ps \<Rightarrow> to_dict ps)"
| "decoded x = Inr x"

text \<open>
  Lexing from index \<open>i\<close> and position \<open>p\<close> emits the tokens \<open>toks\<close> and goes on from
  index \<open>j\<close> and position \<open>q\<close>.
\<close>

definition lexes ::
  "bytes \<Rightarrow> nat \<Rightarrow> position \<Rightarrow> token list \<Rightarrow> nat \<Rightarrow> position \<Rightarrow> bool" where
  "lexes source i p toks j q =
     (\<forall>r. Lexer_loop bencode_specs source j q = Some r \<longrightarrow>
          Lexer_loop bencode_specs source i p = Some (foldr yield toks r))"

text \<open>
  From every state at token index \<open>i\<close> a parser returns \<open>v\<close> and stops at index \<open>j\<close>; it
  raises \<open>NoParseError\<close>; it raises the exception \<open>e\<close>.
\<close>

definition accepts :: "'a parser \<Rightarrow> token list \<Rightarrow> nat \<Rightarrow> 'a \<Rightarrow> nat \<Rightarrow> bool" where
  "accepts p tokens i v j =
     (\<forall>s. pos s = i \<longrightarrow> (\<exists>m. p tokens s = Some (Inr (v, State j m))))"

definition rejects :: "'a parser \<Rightarrow> token list \<Rightarrow> nat \<Rightarrow> bool" where
  "rejects p tokens i =
     (\<forall>s. pos s = i \<longrightarrow> (\<exists>msg st. p tokens s = Some (Inl (NoParseError msg st))))"

definition raises :: "'a parser \<Rightarrow> token list \<Rightarrow> nat \<Rightarrow> error \<Rightarrow> bool" where
  "raises p tokens i e = (\<forall>s. pos s = i \<longrightarrow> p tokens s = Some (Inl e))"

text \<open>
  Wherever the bytes \<open>chunk\<close> stand in the source, the lexer cuts them into tokens with
  the names and values \<open>syms\<close>.
\<close>

definition lexes_as :: "bytes \<Rightarrow> bytes \<Rightarrow> (string \<times> bytes option) list \<Rightarrow> bool" where
  "lexes_as source chunk syms =
     (\<forall>i p rest. drop i source = chunk @ rest \<longrightarrow>
        (\<exists>toks q. lexes source i p toks (i + length chunk) q \<and> map view toks = syms))"

text \<open>
  The outcome \<open>r\<close> of a parser from token index \<open>i\<close>: it raises the exception, or returns
  the value and stops at index \<open>j\<close>.
\<close>

definition outcome :: "'a parser \<Rightarrow> token list \<Rightarrow> nat \<Rightarrow> error + 'a \<Rightarrow> nat \<Rightarrow> bool" where
  "outcome p tokens i r j =
     (case r of Inl e \<Rightarrow> raises p tokens i e | Inr v \<Rightarrow> accepts p tokens i v j)"

text \<open>
  The bencode values of the specification's data model that the lexer can read: as
  \<open>decodable\<close>, and every dictionary has hashable keys, each of them once.
\<close>

fun canonical :: "pyval \<Rightarrow> bool" where
  "canonical (PyInt i) = (0 \<le> i)"
| "canonical (PyBytes b) = (b \<noteq> [])"
| "canonical (PyList xs) = list_all canonical xs"
| "canonical (PyDict kvs) =
     (list_all (\<lambda>(k, v). canonical k \<and> hashable k \<and> canonical v) kvs \<and> distinct (map fst kvs))"
| "canonical x = False"

text \<open>No integer occurs in the value.\<close>

fun int_free :: "pyval \<Rightarrow> bool" where
  "int_free (PyInt i) = False"
| "int_free (PyList xs) = list_all int_free xs"
| "int_free (PyDict kvs) = list_all (\<lambda>(k, v). int_free k \<and> int_free v) kvs"
| "int_free x = True"

text \<open>The distinct members of a list, in the order of their first occurrence.\<close>

definition key_order :: "'a list \<Rightarrow> 'a list" where
  "key_order ks = rev (remdups (rev ks))"

text \<open>Whatever the parser \<open>p\<close> comes back with, the parser \<open>q\<close> comes back with too.\<close>

definition agrees :: "'a parser \<Rightarrow> 'a parser \<Rightarrow> bool" where
  "agrees p q = (\<forall>tokens s r. p tokens s = Some r \<longrightarrow> q tokens s = Some r)"

section \<open>Position tracking\<close>

lemma bytes_count_append:
  "bytes_count (a @ b) c = bytes_count a c + bytes_count b c"
  by (simp add: bytes_count_def)

lemma bytes_rfind_lower: "- 1 \<le> bytes_rfind s c"
  by (induction s) (auto simp: Let_def)

lemma bytes_rfind_found: "(0 \<le> bytes_rfind s c) = (0 < bytes_count s c)"
  by (induction s) (auto simp: Let_def bytes_count_def)

lemma bytes_rfind_missing: "\<not> 0 \<le> bytes_rfind s c \<Longrightarrow> bytes_rfind s c = - 1"
  using bytes_rfind_lower [of s c] by arith

lemma bytes_rfind_append:
  "bytes_rfind (a @ b) c =
     (if 0 \<le> bytes_rfind b c then int (length a) + bytes_rfind b c else bytes_rfind a c)"
  by (induction a) (auto simp: Let_def dest: bytes_rfind_missing)

text \<open>
  Claim C8. Position tracking is associative over concatenation of consumed byte spans:
  advancing a position over \<open>a\<close> and then over \<open>b\<close> gives the position reached by
  advancing it over \<open>a @ b\<close>, for every starting position and all byte spans.
\<close>

theorem advance_append:
  "advance (advance p a) b = advance p (a @ b)"
proof -
  obtain l ch where p: "p = (l, ch)" by (cases p)
  have nb: "(0 < bytes_count b newline) = (0 \<le> bytes_rfind b newline)"
    by (simp add: bytes_rfind_found)
  have na: "(0 < bytes_count a newline) = (0 \<le> bytes_rfind a newline)"
    by (simp add: bytes_rfind_found)
  show ?thesis
  proof (cases "0 \<le> bytes_rfind b newline")
    case True
    with na nb show ?thesis
      unfolding advance_def get_new_position_def p
      by (simp add: Let_def bytes_count_append bytes_rfind_append)
  next
    case False
    with na nb show ?thesis
      unfolding advance_def get_new_position_def p
      by (cases "0 \<le> bytes_rfind a newline")
         (simp_all add: Let_def bytes_count_append bytes_rfind_append)
  qed
qed

section \<open>The lexer covers its source\<close>

lemma Token_match_spec_matched:
  "Token_match_spec spec source i p = Inr (Some tok) \<Longrightarrow> matched_at source i p tok"
  by (auto simp: Token_match_spec_def matched_at_def Token_init_def Let_def
      split: if_splits option.splits)

lemma StringToken_match_spec_matched:
  "StringToken_match_spec spec source i p = Inr (Some tok) \<Longrightarrow> matched_at source i p tok"
  by (fastforce simp: StringToken_match_spec_def matched_at_def StringToken_init_def
      Token_init_def Let_def split: if_splits option.splits sum.splits)

lemma match_spec_matched:
  "match_spec spec source i p = Inr (Some tok) \<Longrightarrow> matched_at source i p tok"
  by (auto simp: match_spec_def split: token_class.splits
      dest: Token_match_spec_matched StringToken_match_spec_matched)

lemma match_specs_matched:
  "match_specs specs source i p = Inr tok \<Longrightarrow> matched_at source i p tok"
  by (induction specs) (auto split: if_splits sum.splits option.splits dest: match_spec_matched)

lemma slice_drop:
  "slice source i e @ drop (i + length (slice source i e)) source = drop i source"
proof -
  have "take k xs @ drop (length (take k xs)) xs = xs" for k and xs :: bytes
    by (cases "k \<le> length xs") (simp_all add: min_def)
  from this [of "e - i" "drop i source"] show ?thesis
    by (simp add: slice_def add.commute)
qed

lemma slice_within: "i \<le> length source \<Longrightarrow> i + length (slice source i e) \<le> length source"
  by (simp add: slice_def)

lemma Lexer_loop_invariant:
  assumes "Lexer_loop specs source i p = Some r"
  shows "\<forall>toks. r = Inr toks \<longrightarrow> i \<le> length source \<longrightarrow>
           concat (map token_bytes toks) = drop i source \<and>
           list_all (\<lambda>t. tvalue t \<noteq> None) toks \<and> chained p toks"
proof (rule Lexer_loop.raw_induct [where P = "\<lambda>specs source i p r.
           \<forall>toks. r = Inr toks \<longrightarrow> i \<le> length source \<longrightarrow>
           concat (map token_bytes toks) = drop i source \<and>
           list_all (\<lambda>t. tvalue t \<noteq> None) toks \<and> chained p toks", OF _ assms],
       goal_cases)
  case (1 loop specs source i p r)
  show ?case
  proof (intro allI impI)
    fix toks
    assume r: "r = Inr toks" and le: "i \<le> length source"
    show "concat (map token_bytes toks) = drop i source \<and>
           list_all (\<lambda>t. tvalue t \<noteq> None) toks \<and> chained p toks"
    proof (cases "i < length source")
      case False
      with 1(2) r le show ?thesis by simp
    next
      case True
      with 1(2) r obtain tok where m: "match_specs specs source i p = Inr tok"
        by (auto split: sum.splits)
      from match_specs_matched [OF m] obtain e where
        tv: "tvalue tok = Some (slice source i e)" and
        st: "start tok = Some p" and
        te: "tend tok = Some (get_new_position (slice source i e) p)"
        by (auto simp: matched_at_def)
      let ?v = "slice source i e"
      let ?p = "get_new_position ?v p"
      from 1(2) r True m tv te obtain rest where
        rec: "loop specs source (i + length ?v) ?p = Some (Inr rest)" and
        toks: "toks = tok # rest"
        by (auto simp: yield_def split: Option.bind_splits sum.splits)
      from 1(1) [OF rec] slice_within [OF le]
      have ih: "concat (map token_bytes rest) = drop (i + length ?v) source"
               "list_all (\<lambda>t. tvalue t \<noteq> None) rest" "chained ?p rest"
        by auto
      show ?thesis
        using ih tv st te slice_drop [of source i e]
        by (simp add: toks token_bytes_def)
    qed
  qed
qed

text \<open>
  Claim C10. Whenever the lexer, with any list of rules, runs to normal completion on a
  source, every token it emitted carries a value, the values concatenated in emission
  order are the whole source, the first token starts at position (0, 0) and every later
  token starts where the one before it ends.
\<close>

theorem Lexer_call_covers_source:
  "Lexer_call specs source = Some (Inr toks) \<Longrightarrow>
     concat (map token_bytes toks) = source \<and>
     list_all (\<lambda>t. tvalue t \<noteq> None) toks \<and> chained (0, 0) toks"
  using Lexer_loop_invariant [of specs source 0 "(0, 0)" "Inr toks"]
  by (simp add: Lexer_call_def)

theorem Lexer_call_covers_source_witness:
  "tokenize ''l4:spame'' =
     Some (Inr [Token_init ''Type'' (Some ''l'') (Some (0, 0)) (Some (0, 1)) None,
                StringToken_init ''String'' False (Some ''4:spam'') (Some (0, 1)) (Some (0, 7)),
                Token_init ''End'' (Some ''e'') (Some (0, 7)) (Some (0, 8)) None]) \<and>
   concat (map token_bytes
     [Token_init ''Type'' (Some ''l'') (Some (0, 0)) (Some (0, 1)) None,
      StringToken_init ''String'' False (Some ''4:spam'') (Some (0, 1)) (Some (0, 7)),
      Token_init ''End'' (Some ''e'') (Some (0, 7)) (Some (0, 8)) None]) = ''l4:spame'' \<and>
   chained (0, 0)
     [Token_init ''Type'' (Some ''l'') (Some (0, 0)) (Some (0, 1)) None,
      StringToken_init ''String'' False (Some ''4:spam'') (Some (0, 1)) (Some (0, 7)),
      Token_init ''End'' (Some ''e'') (Some (0, 7)) (Some (0, 8)) None]"
proof -
  have run: "Lexer_call bencode_specs ''l4:spame'' =
     Some (Inr [Token_init ''Type'' (Some ''l'') (Some (0, 0)) (Some (0, 1)) None,
                StringToken_init ''String'' False (Some ''4:spam'') (Some (0, 1)) (Some (0, 7)),
                Token_init ''End'' (Some ''e'') (Some (0, 7)) (Some (0, 8)) None])"
    by (simp add: Lexer_call_def Lexer_loop.simps bencode_specs_def match_spec_def
        StringToken_match_spec_def Token_match_spec_def StringToken_init_def Token_init_def
        preamble_re_def re_Number_def re_Type_def re_End_def is_digit_def py_int_def
        digit_value_def slice_def get_new_position_def bytes_count_def yield_def)
  from Lexer_call_covers_source [OF run] run show ?thesis
    by (simp add: tokenize_def)
qed

section \<open>The integer branch of the encoder\<close>

lemma digit_char_is_digit: "is_digit (digit_char d)"
proof -
  have "''0123456789'' ! (d mod 10) \<in> set ''0123456789''"
    by (rule nth_mem) simp
  then show ?thesis
    by (simp only: is_digit_def digit_char_def)
qed

lemma str_nat_digits: "list_all is_digit (str_nat n)"
  by (induction n rule: str_nat.induct) (subst str_nat.simps, simp add: digit_char_is_digit)

lemma str_nat_not_Nil: "str_nat n \<noteq> []"
  by (subst str_nat.simps) simp

lemma replicate_zero_no_digits:
  "list_all is_digit s \<Longrightarrow> s \<noteq> [] \<Longrightarrow> s \<noteq> replicate k (CHR 0x00)"
  by (cases s; cases k) (auto simp: is_digit_def)

text \<open>
  Claim C1 asks for \<open>i\<close>, the decimal digits of the integer and \<open>e\<close>. The branch calls
  \<open>bytes(x)\<close> where the branch for byte strings calls \<open>str(len(x)).encode()\<close>: it
  writes as many zero bytes as the integer says, or raises \<open>ValueError\<close> for a negative
  integer, and so never writes what the claim states, in particular not \<open>i0e\<close> for 0 nor
  \<open>i-42e\<close> for -42.
\<close>

theorem encode_bytes_Integer_defect:
  "encode_bytes (PyInt i) =
     (if i < 0 then Inl ValueError else Inr (''i'' @ replicate (nat i) (CHR 0x00) @ ''e'')) \<and>
   encode_bytes (PyInt i) \<noteq> Inr (''i'' @ str_int i @ ''e'') \<and>
   encode_bytes (PyInt 0) = Inr ''ie'' \<and> ''i'' @ str_int 0 @ ''e'' = ''i0e'' \<and>
   encode_bytes (PyInt (- 42)) = Inl ValueError \<and> ''i'' @ str_int (- 42) @ ''e'' = ''i-42e''"
proof -
  have "str_nat (nat i) \<noteq> replicate (nat i) (CHR 0x00)"
    using replicate_zero_no_digits [OF str_nat_digits str_nat_not_Nil] .
  then show ?thesis
    by (simp add: py_bytes_def str_int_def str_nat.simps [of 0] str_nat.simps [of 42]
        str_nat.simps [of 4] digit_char_def)
qed

section \<open>Values outside the four variants\<close>

text \<open>
  Claim C9 fails as stated: a \<open>str\<close> is none of the four bencode variants, and the encoder
  has a branch of its own for it, which succeeds.
\<close>

theorem encode_bytes_str_counterexample:
  "\<not> bencode_variant (PyStr [97]) \<and> encode_bytes (PyStr [97]) = Inr ''1:a''"
  by code_simp

text \<open>
  Claim C9, amended. For every object outside the four variants: a \<open>str\<close> is encoded as
  the byte string of its UTF-8 encoding (and fails only where that encoding does); any
  other object makes the encoder fail with an \<open>EncodeError\<close> that carries the object.
\<close>

theorem encode_bytes_outside_variants:
  "\<not> bencode_variant x \<Longrightarrow>
     (case x of
        PyStr s \<Rightarrow>
          encode_bytes x =
            (case utf8_encode s of Inl e \<Rightarrow> Inl e | Inr b \<Rightarrow> encode_bytes (PyBytes b))
      | _ \<Rightarrow> encode_bytes x = Inl (EncodeError x))"
  by (cases x) (simp_all split: sum.splits)

theorem encode_bytes_outside_variants_witness:
  "\<not> bencode_variant PyNone \<and> encode_bytes PyNone = Inl (EncodeError PyNone)"
  using encode_bytes_outside_variants [of PyNone] by simp

section \<open>The empty byte string\<close>

text \<open>
  Claim C7 asks that \<open>0:\<close> decode to the empty byte string, which is what the encoder
  writes for it. The pattern of \<open>StringToken.preamble_re\<close> wants a first digit from 1 to
  9, so \<open>0\<close> is lexed as a number, the colon matches no rule, and the decoder raises
  \<open>DecodeError\<close>.
\<close>

theorem decode_bytes_empty_string_defect:
  "encode_bytes (PyBytes '''') = Inr ''0:'' \<and>
   decode_bytes ''0:'' = Some (Inl (DecodeError (SyntaxError (0, 1) CHR '':'')))"
  by code_simp

section \<open>The bencode rules: every step emits a token or a syntax error\<close>

lemma slice_Cons:
  "drop i source = c # cs \<Longrightarrow> slice source i (i + Suc k) = c # take k cs"
  by (simp add: slice_def)

lemma slice_not_Nil: "drop i source = c # cs \<Longrightarrow> i < j \<Longrightarrow> slice source i j \<noteq> []"
  by (cases "j - i") (simp_all add: slice_def)

lemma take_length_takeWhile: "take (length (takeWhile P xs)) xs = takeWhile P xs"
  by (induction xs) auto

lemma is_digit_zero: "is_digit (CHR ''0'')"
  by (simp add: is_digit_def)

lemma list_all_takeWhile: "list_all P (takeWhile P xs)"
  by (induction xs) auto

lemma preamble_re_Some:
  "preamble_re source i = Some (g0, g1) \<Longrightarrow>
     g1 \<noteq> [] \<and> list_all is_digit g1 \<and> g0 = g1 @ '':''"
  by (auto simp: preamble_re_def Let_def list_all_takeWhile
      split: list.splits if_splits)

lemma py_int_digits: "s \<noteq> [] \<Longrightarrow> list_all is_digit s \<Longrightarrow> \<exists>n. py_int s = Inr n \<and> 0 \<le> n"
  by (simp add: py_int_def)

lemma String_match_cases:
  "drop i source = c # cs \<Longrightarrow>
   StringToken_match_spec (StringToken_init ''String'' True None None None) source i p = Inr None \<or>
   (\<exists>tok. StringToken_match_spec (StringToken_init ''String'' True None None None) source i p
            = Inr (Some tok) \<and> lexed tok \<and> name tok = ''String'')"
proof (cases "preamble_re source i")
  case None
  then show ?thesis
    by (simp add: StringToken_match_spec_def StringToken_init_def Token_init_def)
next
  case (Some g)
  obtain g0 g1 where g: "g = (g0, g1)" by (cases g)
  from preamble_re_Some [OF Some [unfolded g]]
  have g1: "g1 \<noteq> []" "list_all is_digit g1" and g0: "g0 = g1 @ '':''" by auto
  from py_int_digits [OF g1] obtain n where n: "py_int g1 = Inr n" by auto
  assume d: "drop i source = c # cs"
  have "slice source i (i + length g0 + nat n) \<noteq> []"
    by (rule slice_not_Nil [OF d]) (simp add: g0)
  then show ?thesis
    using Some g n
    by (simp add: StringToken_match_spec_def StringToken_init_def Token_init_def lexed_def
        Let_def)
qed

lemma Number_match_cases:
  "drop i source = c # cs \<Longrightarrow>
   Token_match_spec (Token_init ''Number'' None None None (Some re_Number)) source i p = Inr None \<or>
   (\<exists>tok. Token_match_spec (Token_init ''Number'' None None None (Some re_Number)) source i p
            = Inr (Some tok) \<and> lexed tok)"
  using slice_Cons [of i source c cs 0]
        slice_Cons [of i source c cs "length (takeWhile is_digit cs)"]
  by (auto simp: Token_match_spec_def Token_init_def re_Number_def lexed_def Let_def
      list_all_takeWhile take_length_takeWhile is_digit_zero)

lemma Type_match_cases:
  "drop i source = c # cs \<Longrightarrow>
   Token_match_spec (Token_init ''Type'' None None None (Some re_Type)) source i p = Inr None \<or>
   (\<exists>tok. Token_match_spec (Token_init ''Type'' None None None (Some re_Type)) source i p
            = Inr (Some tok) \<and> lexed tok)"
  using slice_Cons [of i source c cs 0]
  by (auto simp: Token_match_spec_def Token_init_def re_Type_def lexed_def Let_def)

lemma End_match_cases:
  "drop i source = c # cs \<Longrightarrow>
   Token_match_spec (Token_init ''End'' None None None (Some re_End)) source i p = Inr None \<or>
   (\<exists>tok. Token_match_spec (Token_init ''End'' None None None (Some re_End)) source i p
            = Inr (Some tok) \<and> lexed tok)"
  using slice_Cons [of i source c cs 0]
  by (auto simp: Token_match_spec_def Token_init_def re_End_def lexed_def Let_def)

lemma match_spec_String:
  "match_spec (StringToken_init n sp v s e) = StringToken_match_spec (StringToken_init n sp v s e)"
  by (rule ext)+ (simp add: match_spec_def StringToken_init_def Token_init_def)

lemma match_spec_Token:
  "match_spec (Token_init n v s e r) = Token_match_spec (Token_init n v s e r)"
  by (rule ext)+ (simp add: match_spec_def Token_init_def)

lemma bencode_match_specs_cases:
  assumes "i < length source"
  shows "match_specs bencode_specs source i p = Inl (SyntaxError p (source ! i)) \<or>
         (\<exists>tok. match_specs bencode_specs source i p = Inr tok \<and> lexed tok)"
proof -
  from assms obtain c cs where d: "drop i source = c # cs"
    by (cases "drop i source") auto
  show ?thesis
    using String_match_cases [OF d, of p] Number_match_cases [OF d, of p]
      Type_match_cases [OF d, of p] End_match_cases [OF d, of p] assms
    unfolding bencode_specs_def
    by (auto simp: match_spec_String match_spec_Token)
qed

lemma Lexer_loop_bencode_returns:
  "\<exists>r. Lexer_loop bencode_specs source i p = Some r \<and>
       (case r of Inl e \<Rightarrow> is_SyntaxError e | Inr toks \<Rightarrow> list_all lexed toks)"
proof (induction "length source - i" arbitrary: i p rule: less_induct)
  case less
  show ?case
  proof (cases "i < length source")
    case False
    then show ?thesis
      by (subst Lexer_loop.simps) simp
  next
    case True
    from bencode_match_specs_cases [OF True, of p] show ?thesis
    proof
      assume "match_specs bencode_specs source i p = Inl (SyntaxError p (source ! i))"
      with True show ?thesis
        by (subst Lexer_loop.simps) simp
    next
      assume "\<exists>tok. match_specs bencode_specs source i p = Inr tok \<and> lexed tok"
      then obtain tok v e where m: "match_specs bencode_specs source i p = Inr tok"
        and l: "lexed tok" and v: "tvalue tok = Some v" "v \<noteq> []" and e: "tend tok = Some e"
        by (auto simp: lexed_def)
      from v True have "length source - (i + length v) < length source - i"
        by (cases v) auto
      from less [OF this, of e] obtain r where
        r: "Lexer_loop bencode_specs source (i + length v) e = Some r"
           "case r of Inl e \<Rightarrow> is_SyntaxError e | Inr toks \<Rightarrow> list_all lexed toks"
        by blast
      show ?thesis
        using True m v e r l
        by (subst Lexer_loop.simps) (auto simp: yield_def split: sum.splits)
    qed
  qed
qed

lemma tokenize_returns:
  "\<exists>r. tokenize source = Some r \<and>
       (case r of Inl e \<Rightarrow> is_SyntaxError e | Inr toks \<Rightarrow> list_all lexed toks)"
  unfolding tokenize_def Lexer_call_def by (rule Lexer_loop_bencode_returns)

section \<open>The grammar on any token list\<close>

subsection \<open>Progress of the parsers\<close>

lemma advances_steady: "advances p tokens \<Longrightarrow> steady p tokens"
  by (fastforce simp: advances_def steady_def)

lemma p_some_advances: "advances (p_some pred) tokens"
  by (auto simp: advances_def p_some_def State_def Let_def split: if_splits)

lemma p_some_returns: "returns_below (p_some pred) tokens m"
  by (simp add: returns_below_def p_some_def Let_def)

lemma p_a_advances: "advances (p_a t) tokens"
  by (simp add: p_a_def p_some_advances)

lemma p_a_returns: "returns_below (p_a t) tokens m"
  by (simp add: p_a_def p_some_returns)

lemma shift_advances: "advances p tokens \<Longrightarrow> advances (shift p f) tokens"
  by (auto simp: advances_def shift_def split: option.splits sum.splits prod.splits)

lemma shift_steady: "steady p tokens \<Longrightarrow> steady (shift p f) tokens"
  unfolding steady_def shift_def
  by (auto split: option.splits sum.splits prod.splits)

lemma shift_returns: "returns_below p tokens m \<Longrightarrow> returns_below (shift p f) tokens m"
  by (auto simp: returns_below_def shift_def split: option.splits sum.splits prod.splits)

lemma p_skip_advances: "advances p tokens \<Longrightarrow> advances (p_skip p) tokens"
  by (simp add: p_skip_def shift_advances)

lemma p_skip_steady: "steady p tokens \<Longrightarrow> steady (p_skip p) tokens"
  by (simp add: p_skip_def shift_steady)

lemma p_skip_returns: "returns_below p tokens m \<Longrightarrow> returns_below (p_skip p) tokens m"
  by (simp add: p_skip_def shift_returns)

lemma p_add_Some:
  "p_add mg p q tokens s = Some (Inr (v, s3)) \<Longrightarrow>
     \<exists>v1 s2 v2. p tokens s = Some (Inr (v1, s2)) \<and> q tokens s2 = Some (Inr (v2, s3))"
  by (auto simp: p_add_def split: option.splits sum.splits prod.splits)

lemma p_add_advances_first:
  "advances p tokens \<Longrightarrow> steady q tokens \<Longrightarrow> advances (p_add mg p q) tokens"
  unfolding advances_def steady_def
  by (fastforce dest!: p_add_Some)

lemma p_add_advances_second:
  "steady p tokens \<Longrightarrow> advances q tokens \<Longrightarrow> advances (p_add mg p q) tokens"
  unfolding advances_def steady_def
  by (fastforce dest!: p_add_Some)

lemma p_add_returns:
  assumes "returns_below p tokens m" "steady p tokens" "returns_below q tokens m"
  shows "returns_below (p_add mg p q) tokens m"
  unfolding returns_below_def
proof (intro allI impI)
  fix s :: pstate assume s: "length tokens - pos s < m"
  with assms(1) obtain r where r: "p tokens s = Some r" by (auto simp: returns_below_def)
  show "p_add mg p q tokens s \<noteq> None"
  proof (cases r)
    case (Inl e) with r show ?thesis by (simp add: p_add_def)
  next
    case (Inr vs)
    obtain v s2 where vs: "vs = (v, s2)" by (cases vs)
    from assms(2) r Inr vs have "pos s \<le> pos s2" by (auto simp: steady_def)
    with s have "length tokens - pos s2 < m" by arith
    with assms(3) have "q tokens s2 \<noteq> None" by (simp add: returns_below_def)
    with r Inr vs show ?thesis
      by (auto simp: p_add_def split: sum.splits)
  qed
qed

lemma p_add_returns_advancing:
  assumes "returns_below p tokens (Suc m)" "advances p tokens" "returns_below q tokens m"
  shows "returns_below (p_add mg p q) tokens (Suc m)"
  unfolding returns_below_def
proof (intro allI impI)
  fix s :: pstate assume s: "length tokens - pos s < Suc m"
  with assms(1) obtain r where r: "p tokens s = Some r" by (auto simp: returns_below_def)
  show "p_add mg p q tokens s \<noteq> None"
  proof (cases r)
    case (Inl e) with r show ?thesis by (simp add: p_add_def)
  next
    case (Inr vs)
    obtain v s2 where vs: "vs = (v, s2)" by (cases vs)
    from assms(2) r Inr vs have "pos s < pos s2" "pos s2 \<le> length tokens"
      by (auto simp: advances_def)
    with s have "length tokens - pos s2 < m" by arith
    with assms(3) have "q tokens s2 \<noteq> None" by (simp add: returns_below_def)
    with r Inr vs show ?thesis
      by (auto simp: p_add_def split: sum.splits)
  qed
qed

lemma p_alt_cases:
  "p_alt p q tokens s = Some (Inr (v, s')) \<Longrightarrow>
     p tokens s = Some (Inr (v, s')) \<or>
     (\<exists>msg st. p tokens s = Some (Inl (NoParseError msg st)) \<and>
        q tokens (State (pos s) (smax st)) = Some (Inr (v, s')))"
  by (auto simp: p_alt_def split: option.splits sum.splits error.splits)

lemma pos_State [simp]: "pos (State p m) = p"
  by (simp add: State_def)

lemma smax_State [simp]: "smax (State p m) = m"
  by (simp add: State_def)

lemma p_alt_advances:
  "advances p tokens \<Longrightarrow> advances q tokens \<Longrightarrow> advances (p_alt p q) tokens"
  unfolding advances_def
  by (fastforce dest!: p_alt_cases)

lemma p_alt_returns:
  "returns_below p tokens m \<Longrightarrow> returns_below q tokens m \<Longrightarrow>
     returns_below (p_alt p q) tokens m"
  unfolding returns_below_def p_alt_def
  by (auto split: option.splits sum.splits error.splits)

lemma many_loop_steady:
  "steady p tokens \<Longrightarrow> many_loop k p tokens s res = Some (Inr (vs, s')) \<Longrightarrow>
     pos s \<le> pos s' \<and> (pos s \<le> length tokens \<longrightarrow> pos s' \<le> length tokens)"
proof (induction k arbitrary: s res)
  case 0
  then show ?case by simp
next
  case (Suc k)
  show ?case
  proof (cases "p tokens s")
    case None
    with Suc.prems show ?thesis by simp
  next
    case (Some r)
    show ?thesis
    proof (cases r)
      case (Inl e)
      with Some Suc.prems show ?thesis
        by (cases e) auto
    next
      case (Inr vs2)
      obtain v s2 where vs2: "vs2 = (v, s2)" by (cases vs2)
      from Suc.prems(1) Some Inr vs2
      have a: "pos s \<le> pos s2" "pos s \<le> length tokens \<longrightarrow> pos s2 \<le> length tokens"
        by (auto simp: steady_def)
      from Suc.prems(2) Some Inr vs2
      have "many_loop k p tokens s2 (res @ [v]) = Some (Inr (vs, s'))" by simp
      from Suc.IH [OF Suc.prems(1) this] a show ?thesis by auto
    qed
  qed
qed

lemma p_many_steady: "steady p tokens \<Longrightarrow> steady (p_many k p) tokens"
  unfolding steady_def [of "p_many k p"] p_many_def
  by (blast dest: many_loop_steady)

lemma many_loop_returns:
  "returns_below p tokens m \<Longrightarrow> advances p tokens \<Longrightarrow> length tokens - pos s < m \<Longrightarrow>
   length tokens - pos s < k \<Longrightarrow> many_loop k p tokens s res \<noteq> None"
proof (induction k arbitrary: s res)
  case 0
  then show ?case by simp
next
  case (Suc k)
  from Suc.prems(1,3) obtain r where r: "p tokens s = Some r"
    by (auto simp: returns_below_def)
  show ?case
  proof (cases r)
    case (Inl e)
    with r show ?thesis by (cases e) auto
  next
    case (Inr vs2)
    obtain v s2 where vs2: "vs2 = (v, s2)" by (cases vs2)
    from Suc.prems(2) r Inr vs2 have "pos s < pos s2" "pos s2 \<le> length tokens"
      by (auto simp: advances_def)
    with Suc.prems(3,4) have "length tokens - pos s2 < m" "length tokens - pos s2 < k"
      by arith+
    from Suc.IH [OF Suc.prems(1,2) this] r Inr vs2 show ?thesis by simp
  qed
qed

lemma p_many_returns:
  "returns_below p tokens m \<Longrightarrow> advances p tokens \<Longrightarrow> m \<le> k \<Longrightarrow>
     returns_below (p_many k p) tokens m"
  unfolding returns_below_def [of "p_many k p"] p_many_def
  using many_loop_returns [of p tokens m _ k "[]"] by auto

lemma p_finished_steady: "steady p_finished tokens"
  by (auto simp: steady_def p_finished_def split: if_splits)

lemma p_finished_returns: "returns_below p_finished tokens m"
  by (simp add: returns_below_def p_finished_def)

lemmas parser_advances =
  p_some_advances p_a_advances shift_advances p_skip_advances p_add_advances_first
  p_alt_advances advances_steady p_many_steady

lemma token_type_advances: "advances (token_type t) tokens"
  by (simp add: token_type_def parser_advances)

lemma type_decl_advances: "advances (type_decl t) tokens"
  by (simp add: type_decl_def parser_advances)

lemma end_tok_advances: "advances end_tok tokens"
  by (simp add: end_tok_def parser_advances)

lemma integer_decl_advances: "advances integer_decl tokens"
  unfolding integer_decl_def integer_def
  by (intro parser_advances token_type_advances type_decl_advances end_tok_advances)

lemma str_decl_advances: "advances str_decl tokens"
  unfolding str_decl_def
  by (intro parser_advances token_type_advances)

lemma list_decl_advances: "advances val tokens \<Longrightarrow> advances (list_decl k val) tokens"
  unfolding list_decl_def
  by (intro parser_advances type_decl_advances end_tok_advances)

lemma dict_decl_advances: "advances val tokens \<Longrightarrow> advances (dict_decl k val) tokens"
  unfolding dict_decl_def
  by (intro parser_advances type_decl_advances end_tok_advances)

lemma value_run_advances: "advances (value_run n) tokens"
proof (induction n)
  case 0
  show ?case by (simp add: advances_def)
next
  case (Suc n)
  show ?case
    unfolding value_run.simps
    by (intro p_alt_advances integer_decl_advances str_decl_advances
        list_decl_advances dict_decl_advances Suc)
qed

subsection \<open>The grammar returns\<close>

lemmas parser_returns =
  p_some_returns p_a_returns shift_returns p_skip_returns p_alt_returns p_finished_returns

lemma token_type_returns: "returns_below (token_type t) tokens m"
  by (simp add: token_type_def parser_returns)

lemma type_decl_returns: "returns_below (type_decl t) tokens m"
  by (simp add: type_decl_def parser_returns)

lemma end_tok_returns: "returns_below end_tok tokens m"
  by (simp add: end_tok_def parser_returns)

lemma integer_decl_returns: "returns_below integer_decl tokens m"
  unfolding integer_decl_def integer_def
  by (intro shift_returns p_add_returns p_skip_returns token_type_returns type_decl_returns
      end_tok_returns advances_steady p_add_advances_first p_skip_advances
      type_decl_advances token_type_advances)

lemma str_decl_returns: "returns_below str_decl tokens m"
  unfolding str_decl_def by (intro shift_returns token_type_returns)

lemma list_decl_returns:
  assumes "returns_below val tokens m" "advances val tokens" "m \<le> k"
  shows "returns_below (list_decl k val) tokens (Suc m)"
  unfolding list_decl_def
  by (intro shift_returns p_add_returns p_add_returns_advancing p_skip_returns
      type_decl_returns end_tok_returns p_many_returns assms
      advances_steady p_add_advances_first p_skip_advances type_decl_advances p_many_steady)

lemma dict_decl_returns:
  assumes "returns_below val tokens m" "advances val tokens" "m \<le> k"
  shows "returns_below (dict_decl k val) tokens (Suc m)"
  unfolding dict_decl_def
  by (intro shift_returns p_add_returns p_add_returns_advancing p_skip_returns
      type_decl_returns end_tok_returns p_many_returns assms
      advances_steady p_add_advances_first p_skip_advances type_decl_advances p_many_steady)

lemma value_run_returns: "returns_below (value_run n) tokens n"
proof (induction n)
  case 0
  show ?case by (simp add: returns_below_def)
next
  case (Suc n)
  show ?case
    unfolding value_run.simps
    by (intro p_alt_returns integer_decl_returns str_decl_returns list_decl_returns
        dict_decl_returns Suc value_run_advances) simp_all
qed

lemma decode_tokens_returns: "decode_tokens s \<noteq> None"
proof -
  have "returns_below (bencode_decl (Suc (length s))) s (Suc (length s))"
    unfolding bencode_decl_def
    by (intro p_add_returns value_run_returns advances_steady value_run_advances
        p_skip_returns p_finished_returns)
  then have "bencode_decl (Suc (length s)) s (State 0 0) \<noteq> None"
    by (simp add: returns_below_def)
  then show ?thesis
    by (auto simp: decode_tokens_def decode_tokens_bounded_def parse_def
        split: option.splits sum.splits)
qed

subsection \<open>How the grammar fails\<close>

lemma p_some_fails: "fails_with (p_some pred) tokens grammar_failure"
  by (auto simp: fails_with_def p_some_def Let_def grammar_failure_def split: if_splits)

lemma p_finished_fails: "fails_with p_finished tokens grammar_failure"
  by (auto simp: fails_with_def p_finished_def grammar_failure_def split: if_splits)

lemma shift_fails:
  assumes "fails_with p tokens E"
    and "\<And>s v s' e. p tokens s = Some (Inr (v, s')) \<Longrightarrow> f v = Inl e \<Longrightarrow> E e"
  shows "fails_with (shift p f) tokens E"
  using assms unfolding fails_with_def shift_def
  by (auto split: option.splits sum.splits prod.splits)

lemma p_skip_fails: "fails_with p tokens E \<Longrightarrow> fails_with (p_skip p) tokens E"
  unfolding p_skip_def by (rule shift_fails) auto

lemma p_add_fails:
  "fails_with p tokens E \<Longrightarrow> fails_with q tokens E \<Longrightarrow> fails_with (p_add mg p q) tokens E"
  unfolding fails_with_def p_add_def
  by (auto split: option.splits sum.splits prod.splits)

lemma p_alt_fails:
  "fails_with p tokens E \<Longrightarrow> fails_with q tokens E \<Longrightarrow> fails_with (p_alt p q) tokens E"
  unfolding fails_with_def p_alt_def
  by (auto split: option.splits sum.splits error.splits)

lemma many_loop_fails:
  "fails_with p tokens E \<Longrightarrow> many_loop k p tokens s res = Some (Inl e) \<Longrightarrow> E e"
proof (induction k arbitrary: s res)
  case 0
  then show ?case by simp
next
  case (Suc k)
  show ?case
  proof (cases "p tokens s")
    case None
    with Suc.prems show ?thesis by simp
  next
    case (Some r)
    show ?thesis
    proof (cases r)
      case (Inl e')
      with Some Suc.prems show ?thesis
        by (cases e') (auto simp: fails_with_def)
    next
      case (Inr vs)
      with Some Suc show ?thesis by (cases vs) auto
    qed
  qed
qed

lemma p_many_fails: "fails_with p tokens E \<Longrightarrow> fails_with (p_many k p) tokens E"
  unfolding fails_with_def [of "p_many k p"] p_many_def
  by (blast dest: many_loop_fails)

lemma p_some_value:
  "p_some pred tokens s = Some (Inr (t, s')) \<Longrightarrow> t \<in> set tokens \<and> pred t"
  by (auto simp: p_some_def Let_def split: if_splits)

lemma token_type_fails: "fails_with (token_type t) tokens grammar_failure"
  unfolding token_type_def
  by (rule shift_fails [OF p_some_fails]) (simp add: token_value_def)

lemma token_type_value:
  "token_type n tokens s = Some (Inr (v, s')) \<Longrightarrow> \<exists>t \<in> set tokens. name t = n \<and> v = tvalue t"
  by (auto simp: token_type_def shift_def token_value_def
      split: option.splits sum.splits prod.splits dest: p_some_value)

lemma type_decl_fails: "fails_with (type_decl t) tokens grammar_failure"
  by (simp add: type_decl_def p_a_def p_some_fails)

lemma end_tok_fails: "fails_with end_tok tokens grammar_failure"
  by (simp add: end_tok_def p_a_def p_some_fails)

lemma p_add_ignored_first_value:
  "p_add magic_ignored_first (p_skip p) q tokens s = Some (Inr (v, s')) \<Longrightarrow>
     \<exists>s2. q tokens s2 = Some (Inr (v, s'))"
  by (auto simp: p_add_def p_skip_def shift_def
      split: option.splits sum.splits prod.splits)

lemma p_add_ignored_second_value:
  "p_add magic_ignored_second p (p_skip q) tokens s = Some (Inr (v, s')) \<Longrightarrow>
     \<exists>s2. p tokens s = Some (Inr (v, s2))"
  by (auto simp: p_add_def p_skip_def shift_def
      split: option.splits sum.splits prod.splits)

lemma integer_decl_fails:
  assumes "list_all lexed tokens"
  shows "fails_with integer_decl tokens grammar_failure"
  unfolding integer_decl_def
proof (rule shift_fails, goal_cases)
  case 1
  show ?case
    unfolding integer_def
    by (intro p_add_fails p_skip_fails type_decl_fails end_tok_fails token_type_fails)
next
  case (2 s v s' e)
  from 2(1) obtain s2 s3 where "integer tokens s2 = Some (Inr (v, s3))"
    by (blast dest: p_add_ignored_first_value p_add_ignored_second_value)
  then obtain t where t: "t \<in> set tokens" "name t = ''Number''" "v = tvalue t"
    unfolding integer_def by (blast dest: token_type_value)
  with assms have "lexed t" by (simp add: list_all_iff)
  with t obtain b where "v = Some b" "b \<noteq> []" "list_all is_digit b"
    by (auto simp: lexed_def)
  with 2(2) show ?case
    by (simp add: to_int_def py_int_def)
qed

lemma str_decl_fails:
  assumes "list_all lexed tokens"
  shows "fails_with str_decl tokens grammar_failure"
  unfolding str_decl_def
proof (rule shift_fails [OF token_type_fails], goal_cases)
  case (1 s v s' e)
  then obtain t where t: "t \<in> set tokens" "v = tvalue t"
    by (blast dest: token_type_value)
  with assms have "lexed t" by (simp add: list_all_iff)
  with t 1(2) show ?case
    by (auto simp: lexed_def to_string_def)
qed

lemma dict_update_fails: "dict_update d kvs = Inl e \<Longrightarrow> e = TypeError"
  by (induction d kvs rule: dict_update.induct) (auto split: if_splits)

lemma to_dict_fails: "to_dict n = Inl e \<Longrightarrow> grammar_failure e"
  by (auto simp: to_dict_def py_dict_def grammar_failure_def to_list_def
      split: sum.splits dest: dict_update_fails)

lemma dict_decl_fails:
  "fails_with val tokens grammar_failure \<Longrightarrow> fails_with (dict_decl k val) tokens grammar_failure"
  unfolding dict_decl_def
  by (rule shift_fails)
     (intro p_add_fails p_skip_fails type_decl_fails end_tok_fails p_many_fails,
      auto dest: to_dict_fails)

lemma list_decl_fails:
  "fails_with val tokens grammar_failure \<Longrightarrow> fails_with (list_decl k val) tokens grammar_failure"
  unfolding list_decl_def
  by (rule shift_fails)
     (intro p_add_fails p_skip_fails type_decl_fails end_tok_fails p_many_fails, auto)

lemma value_run_fails:
  assumes "list_all lexed tokens"
  shows "fails_with (value_run n) tokens grammar_failure"
proof (induction n)
  case 0
  show ?case by (simp add: fails_with_def)
next
  case (Suc n)
  show ?case
    unfolding value_run.simps
    by (intro p_alt_fails integer_decl_fails str_decl_fails list_decl_fails
        dict_decl_fails Suc assms)
qed

lemma decode_tokens_fails:
  assumes "list_all lexed s" "decode_tokens s = Some (Inl e)"
  shows "grammar_failure e"
proof -
  have "fails_with (bencode_decl (Suc (length s))) s grammar_failure"
    unfolding bencode_decl_def
    by (intro p_add_fails p_skip_fails p_finished_fails value_run_fails assms)
  with assms(2) show ?thesis
    by (auto simp: decode_tokens_def decode_tokens_bounded_def parse_def fails_with_def
        split: option.splits sum.splits prod.splits)
qed

subsection \<open>The bound of the grammar does not matter\<close>

lemma agrees_refl: "agrees p p"
  by (simp add: agrees_def)

lemma agrees_trans: "agrees p q \<Longrightarrow> agrees q r \<Longrightarrow> agrees p r"
  by (simp add: agrees_def)

lemma shift_agrees: "agrees p q \<Longrightarrow> agrees (shift p f) (shift q f)"
  unfolding agrees_def shift_def
  by (auto split: option.splits sum.splits prod.splits)

lemma p_skip_agrees: "agrees p q \<Longrightarrow> agrees (p_skip p) (p_skip q)"
  by (simp add: p_skip_def shift_agrees)

lemma p_add_agrees:
  "agrees p p' \<Longrightarrow> agrees q q' \<Longrightarrow> agrees (p_add mg p q) (p_add mg p' q')"
  unfolding agrees_def p_add_def
  by (auto split: option.splits sum.splits prod.splits)

lemma p_alt_agrees:
  "agrees p p' \<Longrightarrow> agrees q q' \<Longrightarrow> agrees (p_alt p q) (p_alt p' q')"
  unfolding agrees_def p_alt_def
  by (auto split: option.splits sum.splits error.splits)

lemma many_loop_agrees:
  "agrees p q \<Longrightarrow> many_loop k p tokens s res = Some r \<Longrightarrow> k \<le> k' \<Longrightarrow>
     many_loop k' q tokens s res = Some r"
proof (induction k arbitrary: k' s res)
  case 0
  then show ?case by simp
next
  case (Suc k)
  from Suc.prems(3) obtain j where k': "k' = Suc j" and j: "k \<le> j" by (cases k') auto
  from Suc.prems(2) obtain x where x: "p tokens s = Some x"
    by (cases "p tokens s") auto
  with Suc.prems(1) have q: "q tokens s = Some x" by (simp add: agrees_def)
  show ?case
  proof (cases x)
    case (Inl e)
    with Suc.prems(2) x q show ?thesis by (cases e) (simp_all add: k')
  next
    case (Inr vs)
    obtain v s2 where vs: "vs = (v, s2)" by (cases vs)
    from Suc.prems(2) x Inr vs have "many_loop k p tokens s2 (res @ [v]) = Some r" by simp
    from Suc.IH [OF Suc.prems(1) this j] q Inr vs show ?thesis by (simp add: k')
  qed
qed

lemma p_many_agrees: "agrees p q \<Longrightarrow> k \<le> k' \<Longrightarrow> agrees (p_many k p) (p_many k' q)"
  unfolding agrees_def [of "p_many k p"] p_many_def
  by (blast intro: many_loop_agrees)

lemma dict_decl_agrees:
  "agrees p q \<Longrightarrow> k \<le> k' \<Longrightarrow> agrees (dict_decl k p) (dict_decl k' q)"
  unfolding dict_decl_def
  by (intro shift_agrees p_add_agrees p_many_agrees agrees_refl)

lemma list_decl_agrees:
  "agrees p q \<Longrightarrow> k \<le> k' \<Longrightarrow> agrees (list_decl k p) (list_decl k' q)"
  unfolding list_decl_def
  by (intro shift_agrees p_add_agrees p_many_agrees agrees_refl)

lemma value_agrees:
  "agrees p q \<Longrightarrow> k \<le> k' \<Longrightarrow>
     agrees (p_alt integer_decl (p_alt (dict_decl k p) (p_alt (list_decl k p) str_decl)))
       (p_alt integer_decl (p_alt (dict_decl k' q) (p_alt (list_decl k' q) str_decl)))"
  by (intro p_alt_agrees dict_decl_agrees list_decl_agrees agrees_refl)

lemma value_run_Suc: "agrees (value_run n) (value_run (Suc n))"
proof (induction n)
  case 0
  show ?case by (simp add: agrees_def)
next
  case (Suc n)
  from value_agrees [OF Suc, of "Suc n" "Suc (Suc n)"] show ?case by simp
qed

lemma value_run_mono: "n \<le> m \<Longrightarrow> agrees (value_run n) (value_run m)"
proof (induction m)
  case 0
  then show ?case by (simp add: agrees_refl)
next
  case (Suc m)
  show ?case
  proof (cases "n = Suc m")
    case True
    then show ?thesis by (simp add: agrees_refl)
  next
    case False
    with Suc.prems have "n \<le> m" by simp
    from agrees_trans [OF Suc.IH [OF this] value_run_Suc] show ?thesis .
  qed
qed

lemma decode_tokens_bounded_mono:
  assumes "decode_tokens_bounded n s = Some r" "n \<le> m"
  shows "decode_tokens_bounded m s = Some r"
proof -
  have "agrees (bencode_decl n) (bencode_decl m)"
    unfolding bencode_decl_def
    by (intro p_add_agrees value_run_mono assms(2) agrees_refl)
  with assms(1) show ?thesis
    by (auto simp: decode_tokens_bounded_def parse_def agrees_def
        split: option.splits sum.splits prod.splits)
qed

text \<open>
  Whenever the grammar comes back within some bound, \<open>decode_tokens\<close> has that result:
  the bound it is defined with is one of the bounds that are large enough, and all of
  those agree.
\<close>

theorem decode_tokens_bound_independent:
  assumes "decode_tokens_bounded n s = Some r"
  shows "decode_tokens s = Some r"
proof (cases "n \<le> Suc (length s)")
  case True
  from decode_tokens_bounded_mono [OF assms True] show ?thesis
    by (simp add: decode_tokens_def)
next
  case False
  from decode_tokens_returns [of s] obtain r' where r': "decode_tokens s = Some r'" by auto
  then have "decode_tokens_bounded (Suc (length s)) s = Some r'"
    by (simp add: decode_tokens_def)
  from decode_tokens_bounded_mono [OF this, of n] False assms have "r' = r" by simp
  with r' show ?thesis by simp
qed

section \<open>How decoding fails\<close>

lemma decode_bytes_returns: "\<exists>r. decode_bytes source = Some r"
proof -
  from tokenize_returns [of source] obtain r where r: "tokenize source = Some r" by blast
  show ?thesis
  proof (cases r)
    case (Inl e)
    with r show ?thesis by (simp add: decode_bytes_def)
  next
    case (Inr toks)
    from decode_tokens_returns [of toks] obtain y where "decode_tokens toks = Some y" by auto
    with r Inr show ?thesis by (cases y) (simp_all add: decode_bytes_def)
  qed
qed

text \<open>
  Claim C3 fails as stated: \<open>decode_bytes\<close> catches \<open>LexerError\<close> only, so a failure of
  the grammar leaves it as funcparserlib's \<open>NoParseError\<close>, not as a \<open>DecodeError\<close>. The
  unterminated integer \<open>i\<close> is such an input.
\<close>

theorem decode_bytes_grammar_error_counterexample:
  "decode_bytes ''i'' =
     Some (Inl (NoParseError ''got unexpected token'' \<lparr>pos = 0, smax = 1\<rparr>)) \<and>
   \<not> is_DecodeError (NoParseError ''got unexpected token'' \<lparr>pos = 0, smax = 1\<rparr>)"
  by code_simp

text \<open>
  Claim C3, amended. On every buffer \<open>decode_bytes\<close> comes back with one outcome, a value
  or one exception. When it fails, either the lexer failed, and the exception is a
  \<open>DecodeError\<close> wrapping the lexer's \<open>SyntaxError\<close> (position and offending byte); or the
  lexer succeeded and the grammar failed, and the exception is the grammar's own, unwrapped:
  a \<open>NoParseError\<close>, or the \<open>TypeError\<close> of a dictionary key that cannot be hashed.
\<close>

theorem decode_bytes_failure:
  "(\<exists>r. decode_bytes source = Some r) \<and>
   (decode_bytes source = Some (Inl e) \<longrightarrow>
      (\<exists>p c. tokenize source = Some (Inl (SyntaxError p c)) \<and>
             e = DecodeError (SyntaxError p c)) \<or>
      (\<exists>toks. tokenize source = Some (Inr toks) \<and> decode_tokens toks = Some (Inl e) \<and>
             grammar_failure e))"
proof (intro conjI impI)
  show "\<exists>r. decode_bytes source = Some r" by (rule decode_bytes_returns)
next
  assume d: "decode_bytes source = Some (Inl e)"
  from tokenize_returns [of source] obtain r where
    r: "tokenize source = Some r"
       "case r of Inl e \<Rightarrow> is_SyntaxError e | Inr toks \<Rightarrow> list_all lexed toks"
    by blast
  show "(\<exists>p c. tokenize source = Some (Inl (SyntaxError p c)) \<and>
             e = DecodeError (SyntaxError p c)) \<or>
      (\<exists>toks. tokenize source = Some (Inr toks) \<and> decode_tokens toks = Some (Inl e) \<and>
             grammar_failure e)"
  proof (cases r)
    case (Inl x)
    with r obtain p c where "x = SyntaxError p c" by (cases x) auto
    with d r Inl show ?thesis
      by (simp add: decode_bytes_def except_LexerError_def)
  next
    case (Inr toks)
    with r have l: "list_all lexed toks" by simp
    from d r Inr obtain x where x: "decode_tokens toks = Some (Inl x)"
      and e: "e = except_LexerError x"
      by (auto simp: decode_bytes_def split: option.splits sum.splits)
    from decode_tokens_fails [OF l x] have g: "grammar_failure x" .
    then have "e = x"
      by (cases x) (auto simp: e except_LexerError_def grammar_failure_def)
    with r Inr x g show ?thesis by simp
  qed
qed

theorem decode_bytes_failure_witness:
  "decode_bytes ''i'' =
     Some (Inl (NoParseError ''got unexpected token'' \<lparr>pos = 0, smax = 1\<rparr>)) \<and>
   (\<exists>toks. tokenize ''i'' = Some (Inr toks) \<and>
      decode_tokens toks =
        Some (Inl (NoParseError ''got unexpected token'' \<lparr>pos = 0, smax = 1\<rparr>))) \<and>
   grammar_failure (NoParseError ''got unexpected token'' \<lparr>pos = 0, smax = 1\<rparr>)"
proof -
  have h: "decode_bytes ''i'' =
     Some (Inl (NoParseError ''got unexpected token'' \<lparr>pos = 0, smax = 1\<rparr>))"
    by code_simp
  from decode_bytes_failure [of "''i''" "NoParseError ''got unexpected token'' \<lparr>pos = 0, smax = 1\<rparr>"] h
  show ?thesis by auto
qed

section \<open>Decoding the bencoding of a value\<close>

subsection \<open>Decimal digits\<close>

lemma digit_cases:
  "d < 10 \<Longrightarrow> d = 0 \<or> d = 1 \<or> d = 2 \<or> d = 3 \<or> d = 4 \<or> d = 5 \<or> d = 6 \<or> d = 7 \<or> d = 8 \<or>
     d = (9::nat)"
  by arith

lemma digit_value_digit_char: "d < 10 \<Longrightarrow> digit_value (digit_char d) = d"
  using digit_cases [of d] by (auto simp: digit_value_def digit_char_def)

lemma digit_char_zero: "d < 10 \<Longrightarrow> digit_char d = CHR ''0'' \<Longrightarrow> d = 0"
  using digit_value_digit_char [of d] by (simp add: digit_value_def)

lemma str_nat_Cons:
  "\<exists>c cs. str_nat n = c # cs \<and> is_digit c \<and> list_all is_digit cs \<and>
          (c = CHR ''0'' \<longrightarrow> n = 0 \<and> cs = [])"
proof (induction n rule: str_nat.induct)
  case (1 n)
  show ?case
  proof (cases "n < 10")
    case True
    then show ?thesis
      by (subst str_nat.simps) (auto simp: digit_char_is_digit dest: digit_char_zero)
  next
    case False
    from 1 [OF False] obtain c cs where
      c: "str_nat (n div 10) = c # cs" "is_digit c" "list_all is_digit cs"
         "c = CHR ''0'' \<longrightarrow> n div 10 = 0 \<and> cs = []"
      by blast
    from False have "n div 10 \<noteq> 0" by simp
    with c have "c \<noteq> CHR ''0''" by blast
    with c False show ?thesis
      by (subst str_nat.simps) (simp add: digit_char_is_digit)
  qed
qed

lemma foldl_str_nat: "foldl (\<lambda>acc c. 10 * acc + digit_value c) 0 (str_nat n) = n"
proof (induction n rule: str_nat.induct)
  case (1 n)
  show ?case
  proof (cases "n < 10")
    case True
    then show ?thesis
      by (subst str_nat.simps) (simp add: digit_value_digit_char)
  next
    case False
    with 1 show ?thesis
      by (subst str_nat.simps) (simp add: digit_value_digit_char)
  qed
qed

lemma py_int_str_nat: "py_int (str_nat n) = Inr (int n)"
  by (simp add: py_int_def str_nat_digits str_nat_not_Nil foldl_str_nat)

lemma not_digit [simp]:
  "\<not> is_digit (CHR '':'')" "\<not> is_digit (CHR ''e'')" "\<not> is_digit (CHR ''i'')"
  "\<not> is_digit (CHR ''l'')" "\<not> is_digit (CHR ''d'')"
  by (simp_all add: is_digit_def)

lemma takeWhile_digits:
  "list_all is_digit ds \<Longrightarrow> \<not> is_digit c \<Longrightarrow> takeWhile is_digit (ds @ c # rest) = ds"
  by (induction ds) auto

lemma dropWhile_digits:
  "list_all is_digit ds \<Longrightarrow> \<not> is_digit c \<Longrightarrow> dropWhile is_digit (ds @ c # rest) = c # rest"
  by (induction ds) auto

subsection \<open>One token at a time\<close>

lemma lexes_Nil: "lexes source i p [] i p"
  by (simp add: lexes_def)

lemma lexes_append:
  "lexes source i p ts1 j q \<Longrightarrow> lexes source j q ts2 k r \<Longrightarrow>
     lexes source i p (ts1 @ ts2) k r"
  by (simp add: lexes_def)

lemma lexes_step:
  assumes "match_specs bencode_specs source i p = Inr tok"
    and "tvalue tok = Some v" and "tend tok = Some e" and "i < length source"
  shows "lexes source i p [tok] (i + length v) e"
  unfolding lexes_def
proof (intro allI impI)
  fix r assume "Lexer_loop bencode_specs source (i + length v) e = Some r"
  with assms show "Lexer_loop bencode_specs source i p = Some (foldr yield [tok] r)"
    by (subst Lexer_loop.simps) simp
qed

lemma drop_Cons_less: "drop i source = c # cs \<Longrightarrow> i < length source"
  by (cases "i < length source") auto

lemma slice_prefix: "drop i source = a @ rest \<Longrightarrow> slice source i (i + length a) = a"
  by (simp add: slice_def)

lemma preamble_re_match:
  assumes "drop i source = ds @ CHR '':'' # rest" "ds = c # cs" "list_all is_digit ds"
    "c \<noteq> CHR ''0''"
  shows "preamble_re source i = Some (ds @ '':'', ds)"
  using assms takeWhile_digits [of cs "CHR '':''" rest] dropWhile_digits [of cs "CHR '':''" rest]
  by (simp add: preamble_re_def)

lemma String_spec:
  "match_spec (StringToken_init ''String'' True None None None) source i p =
     (case preamble_re source i of
        None \<Rightarrow> Inr None
      | Some (g0, g1) \<Rightarrow>
          (case py_int g1 of
             Inl e \<Rightarrow> Inl e
           | Inr n \<Rightarrow>
               Inr (Some (StringToken_init ''String'' False
                 (Some (slice source i (i + length g0 + nat n))) (Some p)
                 (Some (get_new_position (slice source i (i + length g0 + nat n)) p))))))"
  by (simp add: match_spec_def StringToken_match_spec_def StringToken_init_def Token_init_def
      Let_def split: option.splits sum.splits)

lemma Token_spec:
  "match_spec (Token_init n None None None (Some re)) source i p =
     (case re source i of
        None \<Rightarrow> Inr None
      | Some e \<Rightarrow>
          Inr (Some (Token_init n (Some (slice source i e)) (Some p)
            (Some (get_new_position (slice source i e) p)) None)))"
  by (simp add: match_spec_def Token_match_spec_def Token_init_def Let_def
      split: option.splits)

lemma Token_init_fields [simp]:
  "name (Token_init n v s e r) = n" "tvalue (Token_init n v s e r) = v"
  "tend (Token_init n v s e r) = e" "start (Token_init n v s e r) = s"
  by (simp_all add: Token_init_def)

lemma StringToken_init_fields [simp]:
  "name (StringToken_init n sp v s e) = n" "tvalue (StringToken_init n sp v s e) = v"
  "tend (StringToken_init n sp v s e) = e" "start (StringToken_init n sp v s e) = s"
  by (simp_all add: StringToken_init_def Token_init_def)

lemma lex_String:
  assumes d: "drop i source = ds @ CHR '':'' # rest" and ds: "ds = c # cs" "list_all is_digit ds"
    "c \<noteq> CHR ''0''" and n: "py_int ds = Inr (int n)"
  shows "\<exists>tok q. lexes source i p [tok] (i + length (ds @ CHR '':'' # take n rest)) q \<and>
           view tok = (''String'', Some (ds @ CHR '':'' # take n rest))"
proof -
  let ?v = "ds @ CHR '':'' # take n rest"
  let ?q = "get_new_position ?v p"
  let ?tok = "StringToken_init ''String'' False (Some ?v) (Some p) (Some ?q)"
  have sl: "slice source i (i + length (ds @ '':'') + n) = ?v"
    using d by (simp add: slice_def)
  have "match_specs bencode_specs source i p = Inr ?tok"
    using preamble_re_match [OF d ds] n sl
    by (simp add: bencode_specs_def String_spec)
  from lexes_step [OF this, of ?v ?q] d ds
  have "lexes source i p [?tok] (i + length ?v) ?q"
    by (simp add: drop_Cons_less)
  moreover have "view ?tok = (''String'', Some ?v)"
    by (simp add: view_def)
  ultimately show ?thesis by blast
qed

lemma preamble_re_no_digit: "drop i source = c # rest \<Longrightarrow> \<not> is_digit c \<Longrightarrow> preamble_re source i = None"
  by (simp add: preamble_re_def)

lemma lex_Type:
  assumes d: "drop i source = c # rest" and c: "c \<in> set ''ild''"
  shows "\<exists>tok q. lexes source i p [tok] (i + 1) q \<and> view tok = (''Type'', Some [c])"
proof -
  let ?q = "get_new_position [c] p"
  let ?tok = "Token_init ''Type'' (Some [c]) (Some p) (Some ?q) None"
  from c have nd: "\<not> is_digit c" by auto
  have sl: "slice source i (Suc i) = [c]"
    using d by (simp add: slice_def)
  have "re_Number source i = None" "re_Type source i = Some (Suc i)"
    using d c nd by (auto simp: re_Number_def re_Type_def)
  then have "match_specs bencode_specs source i p = Inr ?tok"
    using preamble_re_no_digit [OF d nd] sl
    by (simp add: bencode_specs_def String_spec Token_spec)
  from lexes_step [OF this, of "[c]" ?q] d
  have "lexes source i p [?tok] (i + 1) ?q"
    by (simp add: drop_Cons_less)
  moreover have "view ?tok = (''Type'', Some [c])"
    by (simp add: view_def)
  ultimately show ?thesis by blast
qed

lemma lex_End:
  assumes d: "drop i source = CHR ''e'' # rest"
  shows "\<exists>tok q. lexes source i p [tok] (i + 1) q \<and> view tok = (''End'', Some ''e'')"
proof -
  let ?q = "get_new_position ''e'' p"
  let ?tok = "Token_init ''End'' (Some ''e'') (Some p) (Some ?q) None"
  have sl: "slice source i (Suc i) = ''e''"
    using d by (simp add: slice_def)
  have "re_Number source i = None" "re_Type source i = None" "re_End source i = Some (Suc i)"
    using d by (auto simp: re_Number_def re_Type_def re_End_def)
  then have "match_specs bencode_specs source i p = Inr ?tok"
    using preamble_re_no_digit [OF d] sl
    by (simp add: bencode_specs_def String_spec Token_spec)
  from lexes_step [OF this, of "''e''" ?q] d
  have "lexes source i p [?tok] (i + 1) ?q"
    by (simp add: drop_Cons_less)
  moreover have "view ?tok = (''End'', Some ''e'')"
    by (simp add: view_def)
  ultimately show ?thesis by blast
qed

lemma preamble_re_no_colon:
  assumes "drop i source = ds @ c # rest" "list_all is_digit ds" "\<not> is_digit c" "c \<noteq> CHR '':''"
  shows "preamble_re source i = None"
proof (cases ds)
  case Nil
  with assms show ?thesis by (simp add: preamble_re_def)
next
  case (Cons x xs)
  with assms takeWhile_digits [of xs c rest] dropWhile_digits [of xs c rest]
  show ?thesis by (simp add: preamble_re_def)
qed

lemma lex_Number:
  assumes d: "drop i source = str_nat n @ CHR ''e'' # rest"
  shows "\<exists>tok q. lexes source i p [tok] (i + length (str_nat n)) q \<and>
           view tok = (''Number'', Some (str_nat n))"
proof -
  let ?v = "str_nat n"
  let ?q = "get_new_position ?v p"
  let ?tok = "Token_init ''Number'' (Some ?v) (Some p) (Some ?q) None"
  from str_nat_Cons [of n] obtain c cs where
    c: "str_nat n = c # cs" "is_digit c" "list_all is_digit cs"
       "c = CHR ''0'' \<longrightarrow> n = 0 \<and> cs = []"
    by blast
  have pre: "preamble_re source i = None"
    by (rule preamble_re_no_colon [OF d str_nat_digits]) simp_all
  have sl: "slice source i (i + length ?v) = ?v"
    using d by (rule slice_prefix)
  have re: "re_Number source i = Some (i + length ?v)"
    using d c takeWhile_digits [of cs "CHR ''e''" rest]
    by (auto simp: re_Number_def)
  have "match_specs bencode_specs source i p = Inr ?tok"
    using pre re sl
    by (simp add: bencode_specs_def String_spec Token_spec)
  from lexes_step [OF this, of ?v ?q] d c
  have "lexes source i p [?tok] (i + length ?v) ?q"
    by (simp add: drop_Cons_less)
  moreover have "view ?tok = (''Number'', Some ?v)"
    by (simp add: view_def)
  ultimately show ?thesis by blast
qed

subsection \<open>The tokens of a bencoding\<close>

lemma drop_after: "drop i source = a @ rest \<Longrightarrow> drop (i + length a) source = rest"
proof -
  assume "drop i source = a @ rest"
  then have "drop (length a) (drop i source) = rest" by simp
  then show ?thesis by (simp add: add.commute)
qed

lemma lexes_as_Nil: "lexes_as source [] []"
  unfolding lexes_as_def using lexes_Nil by fastforce

lemma lexes_as_append:
  assumes "lexes_as source a sa" "lexes_as source b sb"
  shows "lexes_as source (a @ b) (sa @ sb)"
  unfolding lexes_as_def
proof (intro allI impI)
  fix i p rest
  assume d: "drop i source = (a @ b) @ rest"
  then have da: "drop i source = a @ (b @ rest)" by simp
  from assms(1) da obtain ta q where
    ta: "lexes source i p ta (i + length a) q" "map view ta = sa"
    unfolding lexes_as_def by blast
  from assms(2) drop_after [OF da] obtain tb r where
    tb: "lexes source (i + length a) q tb (i + length a + length b) r" "map view tb = sb"
    unfolding lexes_as_def by blast
  from lexes_append [OF ta(1) tb(1)] ta(2) tb(2)
  show "\<exists>toks q. lexes source i p toks (i + length (a @ b)) q \<and> map view toks = sa @ sb"
    by (intro exI [of _ "ta @ tb"] exI [of _ r]) (simp add: add.assoc)
qed

lemma lexes_as_concat:
  "(\<And>x. x \<in> set xs \<Longrightarrow> lexes_as source (enc x) (sy x)) \<Longrightarrow>
     lexes_as source (concat (map enc xs)) (concat (map sy xs))"
  by (induction xs) (auto intro: lexes_as_Nil lexes_as_append)

lemma lexes_as_Type: "c \<in> set ''ild'' \<Longrightarrow> lexes_as source [c] [(''Type'', Some [c])]"
  unfolding lexes_as_def using lex_Type [of _ source c] by fastforce

lemma lexes_as_End: "lexes_as source ''e'' [(''End'', Some ''e'')]"
  unfolding lexes_as_def using lex_End [of _ source] by fastforce

lemma lexes_as_Number_End:
  "lexes_as source (str_nat n @ ''e'') [(''Number'', Some (str_nat n)), (''End'', Some ''e'')]"
  unfolding lexes_as_def
proof (intro allI impI)
  fix i p rest
  assume d: "drop i source = (str_nat n @ ''e'') @ rest"
  then have dn: "drop i source = str_nat n @ CHR ''e'' # rest" by simp
  from lex_Number [OF dn, of p] obtain t1 q where
    t1: "lexes source i p [t1] (i + length (str_nat n)) q" "view t1 = (''Number'', Some (str_nat n))"
    by blast
  from drop_after [OF dn] lex_End [of "i + length (str_nat n)" source rest q] obtain t2 r where
    t2: "lexes source (i + length (str_nat n)) q [t2] (i + length (str_nat n) + 1) r"
        "view t2 = (''End'', Some ''e'')"
    by blast
  from lexes_append [OF t1(1) t2(1)] t1(2) t2(2)
  show "\<exists>toks q. lexes source i p toks (i + length (str_nat n @ ''e'')) q \<and>
          map view toks = [(''Number'', Some (str_nat n)), (''End'', Some ''e'')]"
    by (intro exI [of _ "[t1, t2]"] exI [of _ r]) (simp add: add.assoc)
qed

lemma lexes_as_String:
  assumes "b \<noteq> []"
  shows "lexes_as source (str_nat (length b) @ '':'' @ b)
           [(''String'', Some (str_nat (length b) @ '':'' @ b))]"
  unfolding lexes_as_def
proof (intro allI impI)
  fix i p rest
  assume d: "drop i source = (str_nat (length b) @ '':'' @ b) @ rest"
  then have d': "drop i source = str_nat (length b) @ CHR '':'' # (b @ rest)" by simp
  from str_nat_Cons [of "length b"] assms obtain c cs where
    c: "str_nat (length b) = c # cs" "c \<noteq> CHR ''0''"
    by auto
  from lex_String [OF d' c(1) str_nat_digits c(2) py_int_str_nat, of p]
  show "\<exists>toks q. lexes source i p toks (i + length (str_nat (length b) @ '':'' @ b)) q \<and>
          map view toks = [(''String'', Some (str_nat (length b) @ '':'' @ b))]"
    by fastforce
qed

lemma lexes_as_bencoding: "decodable v \<Longrightarrow> lexes_as source (bencoding v) (symbols v)"
proof (induction v)
  case (PyBytes b)
  then show ?case using lexes_as_String [of b source] by simp
next
  case (PyInt i)
  then have "str_int i = str_nat (nat i)" by (simp add: str_int_def)
  with lexes_as_append [OF lexes_as_Type [of "CHR ''i''" source] lexes_as_Number_End [of source "nat i"]]
  show ?case by simp
next
  case (PyList xs)
  then have "\<And>x. x \<in> set xs \<Longrightarrow> lexes_as source (bencoding x) (symbols x)"
    by (simp add: list_all_iff)
  from lexes_as_append [OF lexes_as_Type [of "CHR ''l''" source]
      lexes_as_append [OF lexes_as_concat [of xs source bencoding symbols, OF this] lexes_as_End]]
  show ?case by simp
next
  case (PyDict kvs)
  have "lexes_as source ((\<lambda>(k, v). bencoding k @ bencoding v) x) ((\<lambda>(k, v). symbols k @ symbols v) x)"
    if "x \<in> set kvs" for x
  proof -
    obtain k v where x: "x = (k, v)" by (cases x)
    with that PyDict.prems have "decodable k" "decodable v"
      by (auto simp: list_all_iff)
    moreover from x that have "k \<in> Basic_BNFs.fsts x" "v \<in> Basic_BNFs.snds x" by simp_all
    ultimately have "lexes_as source (bencoding k) (symbols k)"
      "lexes_as source (bencoding v) (symbols v)"
      using PyDict.IH that by blast+
    then show ?thesis by (simp add: x lexes_as_append)
  qed
  from lexes_as_append [OF lexes_as_Type [of "CHR ''d''" source]
      lexes_as_append [OF lexes_as_concat [of kvs source _ _, OF this] lexes_as_End]]
  show ?case by simp
qed simp_all

lemma foldr_yield: "foldr yield toks (Inr []) = Inr toks"
  by (induction toks) (simp_all add: yield_def)

lemma tokenize_bencoding:
  assumes "decodable v"
  shows "\<exists>toks. tokenize (bencoding v) = Some (Inr toks) \<and> map view toks = symbols v"
proof -
  have "drop 0 (bencoding v) = bencoding v @ []" by simp
  from lexes_as_bencoding [OF assms, of "bencoding v", unfolded lexes_as_def, rule_format,
      OF this, of "(0, 0)"]
  obtain toks q where
    l: "lexes (bencoding v) 0 (0, 0) toks (length (bencoding v)) q" and v: "map view toks = symbols v"
    by auto
  have "Lexer_loop bencode_specs (bencoding v) (length (bencoding v)) q = Some (Inr [])"
    by (subst Lexer_loop.simps) simp
  with l have "Lexer_loop bencode_specs (bencoding v) 0 (0, 0) = Some (Inr toks)"
    by (simp add: lexes_def foldr_yield)
  with v show ?thesis
    by (auto simp: tokenize_def Lexer_call_def)
qed

subsection \<open>Parsers on tokens seen through their names and values\<close>

lemma view_nth:
  assumes "map view tokens = pre @ x # post"
  shows "length pre < length tokens \<and> view (tokens ! length pre) = x"
proof -
  from assms have "length (map view tokens) = length (pre @ x # post)" by simp
  then have l: "length pre < length tokens" by simp
  then have "view (tokens ! length pre) = map view tokens ! length pre" by simp
  also have "\<dots> = x" by (simp add: assms)
  finally show ?thesis using l by simp
qed

lemma p_some_accepts:
  "i < length tokens \<Longrightarrow> pred (tokens ! i) \<Longrightarrow> accepts (p_some pred) tokens i (tokens ! i) (Suc i)"
  by (auto simp: accepts_def p_some_def Let_def)

lemma p_some_rejects:
  "(i < length tokens \<Longrightarrow> \<not> pred (tokens ! i)) \<Longrightarrow> rejects (p_some pred) tokens i"
  by (auto simp: rejects_def p_some_def Let_def)

lemma token_eq_view: "token_eq t (Token_init n v None None None) = (view t = (n, v))"
  by (simp add: token_eq_def view_def)

lemma type_decl_accepts:
  "i < length tokens \<Longrightarrow> view (tokens ! i) = (''Type'', Some c) \<Longrightarrow>
     accepts (type_decl c) tokens i (tokens ! i) (Suc i)"
  by (simp add: type_decl_def p_a_def p_some_accepts token_eq_view)

lemma type_decl_rejects:
  "(i < length tokens \<Longrightarrow> view (tokens ! i) \<noteq> (''Type'', Some c)) \<Longrightarrow>
     rejects (type_decl c) tokens i"
  by (simp add: type_decl_def p_a_def p_some_rejects token_eq_view)

lemma end_tok_accepts:
  "i < length tokens \<Longrightarrow> view (tokens ! i) = (''End'', Some ''e'') \<Longrightarrow>
     accepts end_tok tokens i (tokens ! i) (Suc i)"
  by (simp add: end_tok_def p_a_def p_some_accepts token_eq_view)

lemma shift_accepts:
  "accepts p tokens i v j \<Longrightarrow> f v = Inr w \<Longrightarrow> accepts (shift p f) tokens i w j"
  by (fastforce simp: accepts_def shift_def)

lemma shift_rejects: "rejects p tokens i \<Longrightarrow> rejects (shift p f) tokens i"
  by (fastforce simp: rejects_def shift_def)

lemma shift_outcome:
  "outcome p tokens i r j \<Longrightarrow>
     outcome (shift p f) tokens i (case r of Inl e \<Rightarrow> Inl e | Inr v \<Rightarrow> f v) j"
  by (cases r; cases "f (projr r)")
     (fastforce simp: outcome_def accepts_def raises_def shift_def)+

lemma p_skip_accepts: "accepts p tokens i v j \<Longrightarrow> accepts (p_skip p) tokens i (Ignored v) j"
  by (simp add: p_skip_def shift_accepts)

lemma p_skip_rejects: "rejects p tokens i \<Longrightarrow> rejects (p_skip p) tokens i"
  by (simp add: p_skip_def shift_rejects)

lemma token_type_accepts:
  "i < length tokens \<Longrightarrow> view (tokens ! i) = (n, v) \<Longrightarrow>
     accepts (token_type n) tokens i v (Suc i)"
  unfolding token_type_def
  by (rule shift_accepts [OF p_some_accepts]) (simp_all add: view_def token_value_def)

lemma token_type_rejects:
  "(i < length tokens \<Longrightarrow> fst (view (tokens ! i)) \<noteq> n) \<Longrightarrow> rejects (token_type n) tokens i"
  unfolding token_type_def
  by (rule shift_rejects [OF p_some_rejects]) (simp add: view_def)

lemma p_add_rejects_first: "rejects p tokens i \<Longrightarrow> rejects (p_add mg p q) tokens i"
  by (fastforce simp: rejects_def p_add_def)

lemma p_add_rejects_second:
  "accepts p tokens i v j \<Longrightarrow> rejects q tokens j \<Longrightarrow> rejects (p_add mg p q) tokens i"
  unfolding rejects_def accepts_def p_add_def
proof (intro allI impI)
  fix s :: pstate
  assume a: "\<forall>s. pos s = i \<longrightarrow> (\<exists>m. p tokens s = Some (Inr (v, State j m)))"
    and r: "\<forall>s. pos s = j \<longrightarrow> (\<exists>msg st. q tokens s = Some (Inl (NoParseError msg st)))"
    and s: "pos s = i"
  from a s obtain m where m: "p tokens s = Some (Inr (v, State j m))" by blast
  from r obtain msg st where "q tokens (State j m) = Some (Inl (NoParseError msg st))"
    by fastforce
  with m show "\<exists>msg st.
       (case p tokens s of None \<Rightarrow> None | Some (Inl e) \<Rightarrow> Some (Inl e)
        | Some (Inr (v1, s2)) \<Rightarrow>
            (case q tokens s2 of None \<Rightarrow> None | Some (Inl e) \<Rightarrow> Some (Inl e)
             | Some (Inr (v2, s3)) \<Rightarrow> Some (Inr (mg v1 v2, s3)))) =
       Some (Inl (NoParseError msg st))"
    by simp
qed

lemma p_add_accepts:
  assumes "accepts p tokens i v1 j" "accepts q tokens j v2 k"
  shows "accepts (p_add mg p q) tokens i (mg v1 v2) k"
  unfolding accepts_def
proof (intro allI impI)
  fix s :: pstate assume "pos s = i"
  with assms(1) obtain m where m: "p tokens s = Some (Inr (v1, State j m))"
    by (auto simp: accepts_def)
  from assms(2) obtain m' where "q tokens (State j m) = Some (Inr (v2, State k m'))"
    by (fastforce simp: accepts_def)
  with m show "\<exists>m. p_add mg p q tokens s = Some (Inr (mg v1 v2, State k m))"
    by (auto simp: p_add_def)
qed

lemma p_add_raises_second:
  assumes "accepts p tokens i v1 j" "raises q tokens j e"
  shows "raises (p_add mg p q) tokens i e"
  unfolding raises_def
proof (intro allI impI)
  fix s :: pstate assume "pos s = i"
  with assms(1) obtain m where m: "p tokens s = Some (Inr (v1, State j m))"
    by (auto simp: accepts_def)
  from assms(2) have "q tokens (State j m) = Some (Inl e)"
    by (simp add: raises_def)
  with m show "p_add mg p q tokens s = Some (Inl e)"
    by (simp add: p_add_def)
qed

lemma p_add_raises_first: "raises p tokens i e \<Longrightarrow> raises (p_add mg p q) tokens i e"
  by (simp add: raises_def p_add_def)

lemma outcome_ignored_first:
  "accepts p tokens i v1 j \<Longrightarrow> outcome q tokens j r k \<Longrightarrow>
     outcome (p_add magic_ignored_first (p_skip p) q) tokens i r k"
  using p_add_accepts [OF p_skip_accepts, of p tokens i v1 j q _ k magic_ignored_first]
    p_add_raises_second [OF p_skip_accepts, of p tokens i v1 j q]
  by (cases r) (auto simp: outcome_def)

lemma outcome_ignored_second:
  "outcome p tokens i r j \<Longrightarrow> accepts q tokens j v2 k \<Longrightarrow>
     outcome (p_add magic_ignored_second p (p_skip q)) tokens i r k"
  using p_add_accepts [OF _ p_skip_accepts, of p tokens i _ j q v2 k magic_ignored_second]
    p_add_raises_first [of p tokens i]
  by (cases r) (auto simp: outcome_def)

lemma outcome_tuple:
  "outcome p tokens i r1 j \<Longrightarrow> outcome q tokens j r2 k \<Longrightarrow>
     outcome (p_add magic_tuple p q) tokens i (both r1 r2) k"
  using p_add_accepts [of p tokens i _ j q _ k magic_tuple]
    p_add_raises_second [of p tokens i _ j q] p_add_raises_first [of p tokens i]
  by (cases r1; cases r2) (auto simp: outcome_def both_def magic_tuple_def)

lemma p_alt_rejects:
  "rejects p tokens i \<Longrightarrow> rejects q tokens i \<Longrightarrow> rejects (p_alt p q) tokens i"
  unfolding rejects_def p_alt_def
proof (intro allI impI)
  fix s :: pstate
  assume p: "\<forall>s. pos s = i \<longrightarrow> (\<exists>msg st. p tokens s = Some (Inl (NoParseError msg st)))"
    and q: "\<forall>s. pos s = i \<longrightarrow> (\<exists>msg st. q tokens s = Some (Inl (NoParseError msg st)))"
    and s: "pos s = i"
  from p s obtain msg st where m: "p tokens s = Some (Inl (NoParseError msg st))" by blast
  from q s have "\<exists>msg' st'. q tokens (State (pos s) (smax st)) = Some (Inl (NoParseError msg' st'))"
    by simp
  with m show "\<exists>msg st.
       (case p tokens s of
          Some (Inl (NoParseError msg st)) \<Rightarrow> q tokens (State (pos s) (smax st))
        | r \<Rightarrow> r) = Some (Inl (NoParseError msg st))"
    by simp
qed

lemma outcome_alt_second:
  assumes "rejects p tokens i" "outcome q tokens i r j"
  shows "outcome (p_alt p q) tokens i r j"
proof -
  have run: "p_alt p q tokens s = q tokens (State i m)" if "pos s = i"
    "p tokens s = Some (Inl (NoParseError msg \<lparr>pos = a, smax = m\<rparr>))" for s msg a m
    using that by (simp add: p_alt_def)
  have *: "\<exists>m. p_alt p q tokens s = q tokens (State i m)" if "pos s = i" for s
  proof -
    from assms(1) that obtain msg st where "p tokens s = Some (Inl (NoParseError msg st))"
      by (auto simp: rejects_def)
    with that show ?thesis by (auto simp: p_alt_def)
  qed
  show ?thesis
  proof (cases r)
    case (Inl e)
    with assms(2) have "\<And>s. pos s = i \<Longrightarrow> q tokens s = Some (Inl e)"
      by (simp add: outcome_def raises_def)
    with * Inl show ?thesis
      by (fastforce simp: outcome_def raises_def)
  next
    case (Inr v)
    with assms(2) have "\<And>s. pos s = i \<Longrightarrow> \<exists>m. q tokens s = Some (Inr (v, State j m))"
      by (simp add: outcome_def accepts_def)
    with * Inr show ?thesis
      by (fastforce simp: outcome_def accepts_def)
  qed
qed

lemma outcome_alt_first:
  assumes "outcome p tokens i r j" "\<And>e. r = Inl e \<Longrightarrow> \<not> is_NoParseError e"
  shows "outcome (p_alt p q) tokens i r j"
proof (cases r)
  case (Inl e)
  with assms(2) have "\<not> is_NoParseError e" by simp
  then have "p_alt p q tokens s = Some (Inl e)" if "p tokens s = Some (Inl e)" for s
    using that by (cases e) (simp_all add: p_alt_def)
  with assms(1) Inl show ?thesis
    by (simp add: outcome_def raises_def)
next
  case (Inr v)
  have "p_alt p q tokens s = Some (Inr (v, s'))" if "p tokens s = Some (Inr (v, s'))" for s s'
    using that by (simp add: p_alt_def)
  with assms(1) Inr show ?thesis
    by (fastforce simp: outcome_def accepts_def)
qed

subsection \<open>The items of a list or dictionary\<close>

lemma many_loop_items:
  assumes "\<And>x pre' post'. x \<in> set xs \<Longrightarrow> map view tokens = pre' @ sy x @ post' \<Longrightarrow>
             outcome p tokens (length pre') (dec x) (length pre' + length (sy x))"
    and "\<And>x e. x \<in> set xs \<Longrightarrow> dec x = Inl e \<Longrightarrow> \<not> is_NoParseError e"
    and "rejects p tokens (length pre + length (concat (map sy xs)))"
    and "map view tokens = pre @ concat (map sy xs) @ post"
    and "length xs < k"
    and "pos s = length pre"
  shows "case sequence (map dec xs) of
           Inl e \<Rightarrow> many_loop k p tokens s res = Some (Inl e)
         | Inr ws \<Rightarrow>
             \<exists>m. many_loop k p tokens s res =
               Some (Inr (res @ ws, State (length pre + length (concat (map sy xs))) m))"
  using assms
proof (induction xs arbitrary: pre k s res)
  case Nil
  from Nil.prems(5) obtain k' where k: "k = Suc k'" by (cases k) auto
  from Nil.prems(3,6) obtain msg st where "p tokens s = Some (Inl (NoParseError msg st))"
    by (auto simp: rejects_def)
  with Nil.prems(6) show ?case by (auto simp: k)
next
  case (Cons x xs)
  from Cons.prems(5) obtain k' where k: "k = Suc k'" and k': "length xs < k'"
    by (cases k) auto
  let ?j = "length pre + length (sy x)"
  from Cons.prems(4) have "map view tokens = pre @ sy x @ (concat (map sy xs) @ post)"
    by simp
  from Cons.prems(1) [OF _ this]
  have o: "outcome p tokens (length pre) (dec x) ?j" by simp
  show ?case
  proof (cases "dec x")
    case (Inl e)
    with o Cons.prems(6) have r: "p tokens s = Some (Inl e)"
      by (simp add: outcome_def raises_def)
    from Cons.prems(2) [of x e] Inl have "\<not> is_NoParseError e" by simp
    with r Inl show ?thesis by (cases e) (simp_all add: k)
  next
    case (Inr w)
    with o Cons.prems(6) obtain m where r: "p tokens s = Some (Inr (w, State ?j m))"
      by (auto simp: outcome_def accepts_def)
    have ih: "case sequence (map dec xs) of
           Inl e \<Rightarrow> many_loop k' p tokens (State ?j m) (res @ [w]) = Some (Inl e)
         | Inr ws \<Rightarrow>
             \<exists>m'. many_loop k' p tokens (State ?j m) (res @ [w]) =
               Some (Inr ((res @ [w]) @ ws,
                 State (length (pre @ sy x) + length (concat (map sy xs))) m'))"
    proof (rule Cons.IH)
      show "outcome p tokens (length pre') (dec y) (length pre' + length (sy y))"
        if "y \<in> set xs" "map view tokens = pre' @ sy y @ post'" for y pre' post'
        using Cons.prems(1) [of y pre' post'] that by simp
      show "\<not> is_NoParseError e" if "y \<in> set xs" "dec y = Inl e" for y e
        using Cons.prems(2) [of y e] that by simp
      show "rejects p tokens (length (pre @ sy x) + length (concat (map sy xs)))"
        using Cons.prems(3) by (simp add: add.assoc)
      show "map view tokens = (pre @ sy x) @ concat (map sy xs) @ post"
        using Cons.prems(4) by simp
      show "length xs < k'" by (rule k')
      show "pos (State ?j m) = length (pre @ sy x)" by simp
    qed
    show ?thesis
      using ih r Inr
      by (cases "sequence (map dec xs)") (auto simp: k add.assoc)
  qed
qed

lemma p_many_items:
  assumes "\<And>x pre' post'. x \<in> set xs \<Longrightarrow> map view tokens = pre' @ sy x @ post' \<Longrightarrow>
             outcome p tokens (length pre') (dec x) (length pre' + length (sy x))"
    and "\<And>x e. x \<in> set xs \<Longrightarrow> dec x = Inl e \<Longrightarrow> \<not> is_NoParseError e"
    and "rejects p tokens (length pre + length (concat (map sy xs)))"
    and "map view tokens = pre @ concat (map sy xs) @ post"
    and "length xs < k"
  shows "outcome (p_many k p) tokens (length pre) (sequence (map dec xs))
           (length pre + length (concat (map sy xs)))"
proof -
  have *: "case sequence (map dec xs) of
           Inl e \<Rightarrow> many_loop k p tokens s [] = Some (Inl e)
         | Inr ws \<Rightarrow>
             \<exists>m. many_loop k p tokens s [] =
               Some (Inr ([] @ ws, State (length pre + length (concat (map sy xs))) m))"
    if "pos s = length pre" for s
    by (rule many_loop_items [OF assms that])
  show ?thesis
    using *
    by (cases "sequence (map dec xs)")
       (auto simp: outcome_def raises_def accepts_def p_many_def)
qed

subsection \<open>The four alternatives of a value\<close>

lemma integer_decl_rejects:
  "(i < length tokens \<Longrightarrow> view (tokens ! i) \<noteq> (''Type'', Some ''i'')) \<Longrightarrow>
     rejects integer_decl tokens i"
  unfolding integer_decl_def
  by (intro shift_rejects p_add_rejects_first p_skip_rejects type_decl_rejects)

lemma dict_decl_rejects:
  "(i < length tokens \<Longrightarrow> view (tokens ! i) \<noteq> (''Type'', Some ''d'')) \<Longrightarrow>
     rejects (dict_decl k val) tokens i"
  unfolding dict_decl_def
  by (intro shift_rejects p_add_rejects_first p_skip_rejects type_decl_rejects)

lemma list_decl_rejects:
  "(i < length tokens \<Longrightarrow> view (tokens ! i) \<noteq> (''Type'', Some ''l'')) \<Longrightarrow>
     rejects (list_decl k val) tokens i"
  unfolding list_decl_def
  by (intro shift_rejects p_add_rejects_first p_skip_rejects type_decl_rejects)

lemma str_decl_rejects:
  "(i < length tokens \<Longrightarrow> fst (view (tokens ! i)) \<noteq> ''String'') \<Longrightarrow>
     rejects str_decl tokens i"
  unfolding str_decl_def
  by (intro shift_rejects token_type_rejects)

lemma value_run_rejects_End:
  assumes "view (tokens ! i) = (''End'', Some ''e'')"
  shows "rejects (value_run (Suc n)) tokens i"
  unfolding value_run.simps
  by (intro p_alt_rejects integer_decl_rejects dict_decl_rejects list_decl_rejects
      str_decl_rejects) (simp_all add: assms)

lemma str_strip_re_sub_str_nat: "str_strip_re_sub (str_nat n @ CHR '':'' # b) = b"
proof -
  have a: "takeWhile is_digit (str_nat n @ CHR '':'' # b) = str_nat n"
    by (rule takeWhile_digits [OF str_nat_digits]) simp
  have b: "dropWhile is_digit (str_nat n @ CHR '':'' # b) = CHR '':'' # b"
    by (rule dropWhile_digits [OF str_nat_digits]) simp
  show ?thesis
    by (simp only: str_strip_re_sub_def append_Cons append_Nil a b list.case)
       (simp add: str_nat_not_Nil)
qed

lemma str_decl_accepts:
  assumes "i < length tokens" "view (tokens ! i) = (''String'', Some (str_nat n @ '':'' @ b))"
  shows "accepts str_decl tokens i (PyBytes b) (Suc i)"
  unfolding str_decl_def
  by (rule shift_accepts [OF token_type_accepts [OF assms]])
     (simp add: to_string_def str_strip_re_sub_str_nat)

lemma integer_decl_accepts:
  assumes "map view tokens =
             pre @ [(''Type'', Some ''i''), (''Number'', Some (str_nat n)), (''End'', Some ''e'')] @ post"
  shows "accepts integer_decl tokens (length pre) (PyInt (int n)) (length pre + 3)"
proof -
  let ?i = "length pre"
  from assms have v0: "map view tokens = pre @ (''Type'', Some ''i'') #
      ((''Number'', Some (str_nat n)) # (''End'', Some ''e'') # post)" by simp
  from assms have v1: "map view tokens = (pre @ [(''Type'', Some ''i'')]) @
      (''Number'', Some (str_nat n)) # ((''End'', Some ''e'') # post)" by simp
  from assms have v2: "map view tokens =
      (pre @ [(''Type'', Some ''i''), (''Number'', Some (str_nat n))]) @
      (''End'', Some ''e'') # post" by simp
  from view_nth [OF v0] have t0: "?i < length tokens" "view (tokens ! ?i) = (''Type'', Some ''i'')"
    by simp_all
  from view_nth [OF v1] have t1: "Suc ?i < length tokens"
    "view (tokens ! Suc ?i) = (''Number'', Some (str_nat n))" by simp_all
  from view_nth [OF v2] have t2: "Suc (Suc ?i) < length tokens"
    "view (tokens ! Suc (Suc ?i)) = (''End'', Some ''e'')" by simp_all
  have "accepts (p_add magic_ignored_second
          (p_add magic_ignored_first (p_skip (type_decl ''i'')) integer) (p_skip end_tok))
          tokens ?i
          (magic_ignored_second
             (magic_ignored_first (Ignored (tokens ! ?i)) (Some (str_nat n)))
             (Ignored (tokens ! Suc (Suc ?i))))
          (Suc (Suc (Suc ?i)))"
    unfolding integer_def
    by (rule p_add_accepts [OF p_add_accepts [OF p_skip_accepts [OF type_decl_accepts [OF t0]]
          token_type_accepts [OF t1]] p_skip_accepts [OF end_tok_accepts [OF t2]]])
  then have a: "accepts (p_add magic_ignored_second
          (p_add magic_ignored_first (p_skip (type_decl ''i'')) integer) (p_skip end_tok))
          tokens ?i (Some (str_nat n)) (length pre + 3)"
    by (simp add: numeral_3_eq_3)
  show ?thesis
    unfolding integer_decl_def
    by (rule shift_accepts [OF a]) (simp add: to_int_def py_int_str_nat)
qed

subsection \<open>The grammar on the tokens of a bencoding\<close>

lemma sequence_Inl: "sequence rs = Inl e \<Longrightarrow> Inl e \<in> set rs"
  by (induction rs) (auto split: sum.splits)

lemma both_Inl: "both r1 r2 = Inl e \<Longrightarrow> r1 = Inl e \<or> r2 = Inl e"
  by (auto simp: both_def split: sum.splits)

lemma to_dict_TypeError: "to_dict ps = Inl e \<Longrightarrow> e = TypeError"
  by (auto simp: to_dict_def py_dict_def split: sum.splits dest: dict_update_fails)

lemma decoded_error: "decoded v = Inl e \<Longrightarrow> e = TypeError"
proof (induction v)
  case (PyList xs)
  then show ?case
    by (auto split: sum.splits dest!: sequence_Inl)
next
  case (PyDict kvs)
  show ?case
  proof (cases "sequence (map (\<lambda>(k, v). both (decoded k) (decoded v)) kvs)")
    case (Inl e')
    with PyDict.prems have e: "e' = e" by simp
    from sequence_Inl [OF Inl] obtain k v where
      kv: "(k, v) \<in> set kvs" "both (decoded k) (decoded v) = Inl e'"
      by auto
    from kv(1) have "k \<in> Basic_BNFs.fsts (k, v)" "v \<in> Basic_BNFs.snds (k, v)" by simp_all
    with PyDict.IH kv both_Inl [OF kv(2)] e show ?thesis by blast
  next
    case (Inr ps)
    with PyDict.prems show ?thesis by (simp add: to_dict_TypeError)
  qed
qed simp_all

lemma decoded_not_NoParseError: "decoded v = Inl e \<Longrightarrow> \<not> is_NoParseError e"
  by (drule decoded_error) simp

lemma symbols_not_Nil: "decodable v \<Longrightarrow> symbols v \<noteq> []"
  by (cases v) simp_all

lemma length_concat_member: "x \<in> set xs \<Longrightarrow> length (f x) \<le> length (concat (map f xs))"
  by (induction xs) auto

lemma length_concat_items:
  "(\<And>x. x \<in> set xs \<Longrightarrow> f x \<noteq> []) \<Longrightarrow> length xs \<le> length (concat (map f xs))"
proof (induction xs)
  case Nil
  show ?case by simp
next
  case (Cons x xs)
  from Cons.prems [of x] have "Suc 0 \<le> length (f x)" by (cases "f x") simp_all
  moreover from Cons have "length xs \<le> length (concat (map f xs))" by simp
  ultimately have "Suc (length xs) \<le> length (f x) + length (concat (map f xs))" by arith
  then show ?case by simp
qed

lemma value_run_bencoding:
  "decodable v \<Longrightarrow> map view tokens = pre @ symbols v @ post \<Longrightarrow> length (symbols v) \<le> n \<Longrightarrow>
     outcome (value_run n) tokens (length pre) (decoded v) (length pre + length (symbols v))"
proof (induction v arbitrary: n pre post)
  case (PyBytes b)
  from PyBytes.prems(3) obtain n' where n: "n = Suc n'" by (cases n) auto
  from PyBytes.prems(2) have
    "map view tokens = pre @ (''String'', Some (str_nat (length b) @ '':'' @ b)) # post"
    by simp
  from view_nth [OF this] have t: "length pre < length tokens"
    "view (tokens ! length pre) = (''String'', Some (str_nat (length b) @ '':'' @ b))"
    by simp_all
  have "outcome str_decl tokens (length pre) (Inr (PyBytes b)) (Suc (length pre))"
    using str_decl_accepts [OF t] by (simp add: outcome_def)
  moreover have "rejects integer_decl tokens (length pre)"
    by (rule integer_decl_rejects) (simp add: t)
  moreover have "rejects (dict_decl (Suc n') (value_run n')) tokens (length pre)"
    by (rule dict_decl_rejects) (simp add: t)
  moreover have "rejects (list_decl (Suc n') (value_run n')) tokens (length pre)"
    by (rule list_decl_rejects) (simp add: t)
  ultimately
  have "outcome (value_run n) tokens (length pre) (Inr (PyBytes b)) (Suc (length pre))"
    unfolding n value_run.simps
    by (intro outcome_alt_second)
  then show ?case by simp
next
  case (PyInt i)
  from PyInt.prems(3) obtain n' where n: "n = Suc n'" by (cases n) auto
  from PyInt.prems(1) have s: "str_int i = str_nat (nat i)" "int (nat i) = i"
    by (simp_all add: str_int_def)
  from PyInt.prems(2) s have "map view tokens =
      pre @ [(''Type'', Some ''i''), (''Number'', Some (str_nat (nat i))), (''End'', Some ''e'')]
        @ post"
    by simp
  from integer_decl_accepts [OF this] s
  have "outcome integer_decl tokens (length pre) (Inr (PyInt i)) (length pre + 3)"
    by (simp add: outcome_def)
  then have "outcome (value_run n) tokens (length pre) (Inr (PyInt i)) (length pre + 3)"
    unfolding n value_run.simps
    by (rule outcome_alt_first) simp
  then show ?case by (simp add: numeral_3_eq_3)
next
  case (PyList xs)
  let ?i = "length pre"
  let ?items = "concat (map symbols xs)"
  let ?j = "Suc ?i + length ?items"
  from PyList.prems(3) obtain n' where n: "n = Suc n'" and n': "Suc (length ?items) \<le> n'"
    by (cases n) auto
  then obtain n'' where n'': "n' = Suc n''" by (cases n') auto
  from PyList.prems(1) have dec: "\<And>x. x \<in> set xs \<Longrightarrow> decodable x"
    by (simp add: list_all_iff)
  from PyList.prems(2) have v0: "map view tokens =
      pre @ (''Type'', Some ''l'') # (?items @ (''End'', Some ''e'') # post)"
    by simp
  from PyList.prems(2) have v1: "map view tokens =
      (pre @ [(''Type'', Some ''l'')]) @ ?items @ ((''End'', Some ''e'') # post)"
    by simp
  from PyList.prems(2) have v2: "map view tokens =
      (pre @ (''Type'', Some ''l'') # ?items) @ (''End'', Some ''e'') # post"
    by simp
  from view_nth [OF v0] have t0: "?i < length tokens"
    "view (tokens ! ?i) = (''Type'', Some ''l'')" by simp_all
  from view_nth [OF v2] have t2: "?j < length tokens"
    "view (tokens ! ?j) = (''End'', Some ''e'')" by simp_all
  have many: "outcome (p_many (Suc n') (value_run n')) tokens
      (length (pre @ [(''Type'', Some ''l'')])) (sequence (map decoded xs))
      (length (pre @ [(''Type'', Some ''l'')]) + length ?items)"
  proof (rule p_many_items [OF _ _ _ v1])
    show "outcome (value_run n') tokens (length pre') (decoded x)
        (length pre' + length (symbols x))"
      if "x \<in> set xs" "map view tokens = pre' @ symbols x @ post'" for x pre' post'
    proof (rule PyList.IH [OF that(1) dec [OF that(1)] that(2)])
      from length_concat_member [OF that(1), of symbols] n'
      show "length (symbols x) \<le> n'" by simp
    qed
    show "\<not> is_NoParseError e" if "x \<in> set xs" "decoded x = Inl e" for x e
      using that(2) by (rule decoded_not_NoParseError)
    show "rejects (value_run n') tokens
        (length (pre @ [(''Type'', Some ''l'')]) + length ?items)"
      unfolding n'' using value_run_rejects_End [OF t2(2)] by simp
    from length_concat_items [of xs symbols] dec n'
    show "length xs < Suc n'" by (simp add: symbols_not_Nil le_imp_less_Suc)
  qed
  have "outcome (list_decl (Suc n') (value_run n')) tokens ?i
      (case sequence (map decoded xs) of Inl e \<Rightarrow> Inl e
       | Inr vs \<Rightarrow> Inr (PyList (to_list vs))) (Suc ?j)"
    unfolding list_decl_def
    using many
    by (intro shift_outcome outcome_ignored_second [OF _ end_tok_accepts [OF t2]]
        outcome_ignored_first [OF type_decl_accepts [OF t0]]) simp
  then have l: "outcome (list_decl (Suc n') (value_run n')) tokens ?i
      (decoded (PyList xs)) (Suc ?j)"
    unfolding to_list_def by simp
  have a: "outcome (p_alt (list_decl (Suc n') (value_run n')) str_decl) tokens ?i
      (decoded (PyList xs)) (Suc ?j)"
    using l by (rule outcome_alt_first) (rule decoded_not_NoParseError)
  have r1: "rejects integer_decl tokens ?i"
    by (rule integer_decl_rejects) (simp add: t0)
  have r2: "rejects (dict_decl (Suc n') (value_run n')) tokens ?i"
    by (rule dict_decl_rejects) (simp add: t0)
  have "outcome (value_run n) tokens ?i (decoded (PyList xs)) (Suc ?j)"
    unfolding n value_run.simps
    by (rule outcome_alt_second [OF r1 outcome_alt_second [OF r2 a]])
  then show ?case by simp
next
  case (PyDict kvs)
  let ?i = "length pre"
  let ?sy = "\<lambda>(k, v). symbols k @ symbols v"
  let ?dec = "\<lambda>(k, v). both (decoded k) (decoded v)"
  let ?items = "concat (map ?sy kvs)"
  let ?j = "Suc ?i + length ?items"
  from PyDict.prems(3) obtain n' where n: "n = Suc n'" and n': "Suc (length ?items) \<le> n'"
    by (cases n) auto
  then obtain n'' where n'': "n' = Suc n''" by (cases n') auto
  from PyDict.prems(1) have dec: "\<And>k v. (k, v) \<in> set kvs \<Longrightarrow> decodable k \<and> decodable v"
    by (auto simp: list_all_iff)
  from PyDict.prems(2) have v0: "map view tokens =
      pre @ (''Type'', Some ''d'') # (?items @ (''End'', Some ''e'') # post)"
    by simp
  from PyDict.prems(2) have v1: "map view tokens =
      (pre @ [(''Type'', Some ''d'')]) @ ?items @ ((''End'', Some ''e'') # post)"
    by simp
  from PyDict.prems(2) have v2: "map view tokens =
      (pre @ (''Type'', Some ''d'') # ?items) @ (''End'', Some ''e'') # post"
    by simp
  from view_nth [OF v0] have t0: "?i < length tokens"
    "view (tokens ! ?i) = (''Type'', Some ''d'')" by simp_all
  from view_nth [OF v2] have t2: "?j < length tokens"
    "view (tokens ! ?j) = (''End'', Some ''e'')" by simp_all
  have many: "outcome (p_many (Suc n') (p_add magic_tuple (value_run n') (value_run n'))) tokens
      (length (pre @ [(''Type'', Some ''d'')])) (sequence (map ?dec kvs))
      (length (pre @ [(''Type'', Some ''d'')]) + length ?items)"
  proof (rule p_many_items [OF _ _ _ v1])
    show "outcome (p_add magic_tuple (value_run n') (value_run n')) tokens (length pre')
        (?dec x) (length pre' + length (?sy x))"
      if "x \<in> set kvs" "map view tokens = pre' @ ?sy x @ post'" for x pre' post'
    proof -
      obtain k v where x: "x = (k, v)" by (cases x)
      from that(1) x have kv: "(k, v) \<in> set kvs" by simp
      have m: "k \<in> Basic_BNFs.fsts (k, v)" "v \<in> Basic_BNFs.snds (k, v)" by simp_all
      from length_concat_member [OF kv, of ?sy] n'
      have le: "length (symbols k) \<le> n'" "length (symbols v) \<le> n'" by simp_all
      from that(2) x have vk: "map view tokens = pre' @ symbols k @ (symbols v @ post')"
        and vv: "map view tokens = (pre' @ symbols k) @ symbols v @ post'"
        by simp_all
      from dec [OF kv] have dk: "decodable k" and dv: "decodable v" by simp_all
      have "outcome (value_run n') tokens (length pre') (decoded k)
          (length pre' + length (symbols k))"
        by (rule PyDict.IH(1) [OF kv m(1) dk vk le(1)])
      moreover have "outcome (value_run n') tokens (length (pre' @ symbols k)) (decoded v)
          (length (pre' @ symbols k) + length (symbols v))"
        by (rule PyDict.IH(2) [OF kv m(2) dv vv le(2)])
      ultimately show ?thesis
        using outcome_tuple [of "value_run n'" tokens "length pre'" "decoded k"
            "length pre' + length (symbols k)" "value_run n'" "decoded v"
            "length pre' + length (symbols k) + length (symbols v)"]
        by (simp add: x add.assoc)
    qed
    show "\<not> is_NoParseError e" if "x \<in> set kvs" "?dec x = Inl e" for x e
    proof -
      obtain k v where x: "x = (k, v)" by (cases x)
      with that(2) both_Inl [of "decoded k" "decoded v" e]
      show ?thesis by (auto dest: decoded_not_NoParseError)
    qed
    show "rejects (p_add magic_tuple (value_run n') (value_run n')) tokens
        (length (pre @ [(''Type'', Some ''d'')]) + length ?items)"
      unfolding n'' using p_add_rejects_first [OF value_run_rejects_End [OF t2(2)]] by simp
    have "?sy x \<noteq> []" if "x \<in> set kvs" for x
    proof -
      obtain k v where x: "x = (k, v)" by (cases x)
      with that dec [of k v] symbols_not_Nil [of k] show ?thesis by simp
    qed
    from length_concat_items [of kvs ?sy, OF this] n'
    show "length kvs < Suc n'" by (simp add: le_imp_less_Suc)
  qed
  have "outcome (dict_decl (Suc n') (value_run n')) tokens ?i
      (case sequence (map ?dec kvs) of Inl e \<Rightarrow> Inl e | Inr ps \<Rightarrow> to_dict ps) (Suc ?j)"
    unfolding dict_decl_def
    using many
    by (intro shift_outcome outcome_ignored_second [OF _ end_tok_accepts [OF t2]]
        outcome_ignored_first [OF type_decl_accepts [OF t0]]) simp
  then have l: "outcome (dict_decl (Suc n') (value_run n')) tokens ?i
      (decoded (PyDict kvs)) (Suc ?j)"
    by simp
  have a: "outcome (p_alt (dict_decl (Suc n') (value_run n'))
      (p_alt (list_decl (Suc n') (value_run n')) str_decl)) tokens ?i
      (decoded (PyDict kvs)) (Suc ?j)"
    using l by (rule outcome_alt_first) (rule decoded_not_NoParseError)
  have r1: "rejects integer_decl tokens ?i"
    by (rule integer_decl_rejects) (simp add: t0)
  have "outcome (value_run n) tokens ?i (decoded (PyDict kvs)) (Suc ?j)"
    unfolding n value_run.simps
    by (rule outcome_alt_second [OF r1 a])
  then show ?case by simp
qed simp_all

subsection \<open>Decoding a bencoding\<close>

lemma p_finished_accepts: "accepts p_finished tokens (length tokens) () (length tokens)"
  unfolding accepts_def
proof (intro allI impI)
  fix s :: pstate assume "pos s = length tokens"
  then have "p_finished tokens s = Some (Inr ((), State (length tokens) (smax s)))"
    by (simp add: p_finished_def State_def)
  then show "\<exists>m. p_finished tokens s = Some (Inr ((), State (length tokens) m))" ..
qed

lemma decode_tokens_bencoding:
  assumes "decodable v" "map view toks = symbols v"
  shows "decode_tokens toks = Some (decoded v)"
proof -
  let ?n = "Suc (length toks)"
  from assms(2) have len: "length (symbols v) = length toks"
    by (metis length_map)
  from assms(2) have "map view toks = [] @ symbols v @ []" by simp
  from value_run_bencoding [OF assms(1) this, of ?n] len
  have "outcome (value_run ?n) toks 0 (decoded v) (length toks)" by simp
  then have o: "outcome (bencode_decl ?n) toks 0 (decoded v) (length toks)"
    unfolding bencode_decl_def
    by (rule outcome_ignored_second [OF _ p_finished_accepts])
  show ?thesis
  proof (cases "decoded v")
    case (Inl e)
    with o have "bencode_decl ?n toks (State 0 0) = Some (Inl e)"
      by (simp add: outcome_def raises_def)
    with Inl show ?thesis
      by (simp add: decode_tokens_def decode_tokens_bounded_def parse_def)
  next
    case (Inr w)
    with o obtain m where
      "bencode_decl ?n toks (State 0 0) = Some (Inr (w, State (length toks) m))"
      by (fastforce simp: outcome_def accepts_def)
    with Inr show ?thesis
      by (simp add: decode_tokens_def decode_tokens_bounded_def parse_def)
  qed
qed

lemma decode_bytes_bencoding:
  assumes "decodable v"
  shows "decode_bytes (bencoding v) = Some (decoded v)"
proof -
  from tokenize_bencoding [OF assms] obtain toks where
    t: "tokenize (bencoding v) = Some (Inr toks)" "map view toks = symbols v"
    by blast
  from decode_tokens_bencoding [OF assms t(2)] t(1) show ?thesis
    by (cases "decoded v")
       (auto simp: decode_bytes_def except_LexerError_def dest: decoded_error)
qed

subsection \<open>What \<open>dict\<close> makes of the entries\<close>

lemma remdups_snoc: "remdups (xs @ [k]) = filter (\<lambda>y. y \<noteq> k) (remdups xs) @ [k]"
  by (induction xs) auto

lemma key_order_Cons: "key_order (k # ks) = k # filter (\<lambda>y. y \<noteq> k) (key_order ks)"
  by (simp add: key_order_def remdups_snoc rev_filter)

lemma key_order_distinct: "distinct (key_order ks)"
  by (simp add: key_order_def)

lemma key_order_set: "set (key_order ks) = set ks"
  by (simp add: key_order_def)

lemma key_order_id: "distinct ks \<Longrightarrow> key_order ks = ks"
  by (simp add: key_order_def distinct_remdups_id)

lemma dict_setitem_keys:
  "map fst (dict_setitem d k v) = (if k \<in> set (map fst d) then map fst d else map fst d @ [k])"
  by (induction d k v rule: dict_setitem.induct) auto

lemma dict_setitem_map_of: "map_of (dict_setitem d k v) = (map_of d)(k \<mapsto> v)"
  by (induction d k v rule: dict_setitem.induct) (auto simp: fun_upd_twist)

lemma dict_update_result:
  assumes "list_all (\<lambda>(k, v). hashable k) kvs"
  shows "\<exists>d'. dict_update d kvs = Inr d' \<and>
           map fst d' = map fst d @ filter (\<lambda>k. k \<notin> set (map fst d)) (key_order (map fst kvs)) \<and>
           map_of d' = map_of (rev kvs @ d)"
  using assms
proof (induction kvs arbitrary: d)
  case Nil
  show ?case by (simp add: key_order_def)
next
  case (Cons kv kvs)
  obtain k v where kv: "kv = (k, v)" by (cases kv)
  from Cons.prems kv have h: "hashable k" "list_all (\<lambda>(k, v). hashable k) kvs" by simp_all
  let ?d = "dict_setitem d k v"
  from Cons.IH [OF h(2), of ?d] obtain d' where
    d': "dict_update ?d kvs = Inr d'"
        "map fst d' = map fst ?d @ filter (\<lambda>k. k \<notin> set (map fst ?d)) (key_order (map fst kvs))"
        "map_of d' = map_of (rev kvs @ ?d)"
    by blast
  have keys: "map fst d' =
      map fst d @ filter (\<lambda>x. x \<notin> set (map fst d)) (key_order (map fst (kv # kvs)))"
  proof (cases "k \<in> set (map fst d)")
    case True
    have "filter (\<lambda>x. x \<notin> set (map fst d)) (filter (\<lambda>y. y \<noteq> k) (key_order (map fst kvs)))
        = filter (\<lambda>x. x \<notin> set (map fst d)) (key_order (map fst kvs))"
      using True by (auto intro!: filter_cong)
    with True d'(2) show ?thesis
      by (simp add: kv key_order_Cons dict_setitem_keys)
  next
    case False
    have "filter (\<lambda>x. x \<notin> set (map fst d)) (filter (\<lambda>y. y \<noteq> k) (key_order (map fst kvs)))
        = filter (\<lambda>x. x \<notin> set (map fst d @ [k])) (key_order (map fst kvs))"
      by (auto intro!: filter_cong)
    with False d'(2) show ?thesis
      by (simp add: kv key_order_Cons dict_setitem_keys)
  qed
  have "map_of d' = map_of (rev (kv # kvs) @ d)"
    by (simp add: d'(3) kv dict_setitem_map_of map_add_def fun_upd_def fun_eq_iff
        split: option.splits)
  with d'(1) keys h(1) show ?case
    by (simp add: kv)
qed

lemma py_dict_result:
  assumes "list_all (\<lambda>(k, v). hashable k) kvs"
  shows "\<exists>d. py_dict kvs = Inr d \<and> map fst d = key_order (map fst kvs) \<and>
           map_of d = map_of (rev kvs)"
  using dict_update_result [OF assms, of "[]"] by (simp add: py_dict_def)

lemma dict_setitem_new: "k \<notin> set (map fst d) \<Longrightarrow> dict_setitem d k v = d @ [(k, v)]"
  by (induction d k v rule: dict_setitem.induct) auto

lemma dict_update_distinct:
  "list_all (\<lambda>(k, v). hashable k) kvs \<Longrightarrow> distinct (map fst (d @ kvs)) \<Longrightarrow>
     dict_update d kvs = Inr (d @ kvs)"
proof (induction kvs arbitrary: d)
  case Nil
  show ?case by simp
next
  case (Cons kv kvs)
  obtain k v where kv: "kv = (k, v)" by (cases kv)
  from Cons.prems kv have h: "hashable k" "list_all (\<lambda>(k, v). hashable k) kvs"
    and new: "k \<notin> set (map fst d)" and dist: "distinct (map fst ((d @ [(k, v)]) @ kvs))"
    by auto
  from Cons.IH [OF h(2) dist] h(1) new show ?case
    by (simp add: kv dict_setitem_new)
qed

lemma py_dict_distinct:
  "list_all (\<lambda>(k, v). hashable k) kvs \<Longrightarrow> distinct (map fst kvs) \<Longrightarrow> py_dict kvs = Inr kvs"
  using dict_update_distinct [of kvs "[]"] by (simp add: py_dict_def)

lemma dict_update_unhashable:
  "\<not> list_all (\<lambda>(k, v). hashable k) kvs \<Longrightarrow> dict_update d kvs = Inl TypeError"
  by (induction d kvs rule: dict_update.induct) auto

section \<open>Dictionaries\<close>

lemma canonical_decodable: "canonical v \<Longrightarrow> decodable v"
proof (induction v)
  case (PyList xs)
  then show ?case by (auto simp: list_all_iff)
next
  case (PyDict kvs)
  show ?case
    unfolding decodable.simps list_all_iff
  proof
    fix x assume x: "x \<in> set kvs"
    obtain k v where kv: "x = (k, v)" by (cases x)
    from x kv PyDict.prems have "canonical k" "canonical v"
      by (auto simp: list_all_iff)
    moreover from kv have "k \<in> Basic_BNFs.fsts x" "v \<in> Basic_BNFs.snds x" by simp_all
    ultimately have "decodable k" "decodable v"
      using PyDict.IH x by blast+
    then show "case x of (k, v) \<Rightarrow> decodable k \<and> decodable v" by (simp add: kv)
  qed
qed simp_all

lemma sequence_map: "(\<And>x. x \<in> set xs \<Longrightarrow> f x = Inr (g x)) \<Longrightarrow> sequence (map f xs) = Inr (map g xs)"
  by (induction xs) simp_all

lemma decoded_entries:
  assumes "\<And>k v. (k, v) \<in> set kvs \<Longrightarrow> decoded k = Inr k \<and> decoded v = Inr v"
  shows "decoded (PyDict kvs) = to_dict kvs"
proof -
  have "sequence (map (\<lambda>(k, v). both (decoded k) (decoded v)) kvs) = Inr (map (\<lambda>x. x) kvs)"
    by (rule sequence_map) (use assms in \<open>auto simp: both_def\<close>)
  then show ?thesis by simp
qed

lemma canonical_decoded: "canonical v \<Longrightarrow> decoded v = Inr v"
proof (induction v)
  case (PyList xs)
  then have "sequence (map decoded xs) = Inr (map (\<lambda>x. x) xs)"
    by (intro sequence_map) (auto simp: list_all_iff)
  then show ?case by simp
next
  case (PyDict kvs)
  have "decoded k = Inr k \<and> decoded v = Inr v" if "(k, v) \<in> set kvs" for k v
  proof -
    from that PyDict.prems have "canonical k" "canonical v"
      by (auto simp: list_all_iff)
    moreover have "k \<in> Basic_BNFs.fsts (k, v)" "v \<in> Basic_BNFs.snds (k, v)" by simp_all
    ultimately show ?thesis using PyDict.IH that by blast
  qed
  then have "decoded (PyDict kvs) = to_dict kvs" by (rule decoded_entries)
  moreover from PyDict.prems have "py_dict kvs = Inr kvs"
    by (intro py_dict_distinct) (auto simp: list_all_iff)
  ultimately show ?case by (simp add: to_dict_def to_list_def)
qed simp_all

lemma decode_bytes_entries:
  assumes "list_all (\<lambda>(k, v). canonical k \<and> canonical v) kvs"
  shows "decode_bytes (bencoding (PyDict kvs)) = Some (to_dict kvs)"
proof -
  from assms have "decodable (PyDict kvs)"
    by (auto simp: list_all_iff dest: canonical_decodable)
  then have "decode_bytes (bencoding (PyDict kvs)) = Some (decoded (PyDict kvs))"
    by (rule decode_bytes_bencoding)
  moreover from assms have "decoded (PyDict kvs) = to_dict kvs"
    by (intro decoded_entries) (auto simp: list_all_iff dest: canonical_decoded)
  ultimately show ?thesis by (simp only:)
qed

text \<open>
  Claim C4 fails as stated: the grammar hands the pairs to \<open>dict\<close>, which has no check for
  a repeated key and keeps the last value.
\<close>

theorem decode_bytes_duplicate_key_counterexample:
  "decode_bytes ''d1:a1:b1:a1:ce'' = Some (Inr (PyDict [(PyBytes ''a'', PyBytes ''c'')]))"
  by code_simp

text \<open>
  Claim C4, amended. For every buffer that is the bencoding of dictionary entries (keys
  that are byte strings or integers, any values, all readable by the lexer and themselves
  free of repeated keys), also when the same key occurs in two entries, decoding succeeds
  and returns a dictionary that holds each key once, in the order of the keys' first
  occurrence, each with the value of its last entry.
\<close>

theorem decode_bytes_duplicate_keys:
  assumes "list_all (\<lambda>(k, v). canonical k \<and> hashable k \<and> canonical v) kvs"
  shows "\<exists>d. decode_bytes (bencoding (PyDict kvs)) = Some (Inr (PyDict d)) \<and>
           distinct (map fst d) \<and> map fst d = key_order (map fst kvs) \<and>
           map_of d = map_of (rev kvs)"
proof -
  from assms have "list_all (\<lambda>(k, v). hashable k) kvs"
    and c: "list_all (\<lambda>(k, v). canonical k \<and> canonical v) kvs"
    by (auto simp: list_all_iff)
  from py_dict_result [OF this(1)] obtain d where
    d: "py_dict kvs = Inr d" "map fst d = key_order (map fst kvs)" "map_of d = map_of (rev kvs)"
    by blast
  from d(2) have "distinct (map fst d)" by (simp add: key_order_distinct)
  with d decode_bytes_entries [OF c] show ?thesis
    by (simp add: to_dict_def to_list_def)
qed

theorem decode_bytes_duplicate_keys_witness:
  "\<exists>d. decode_bytes ''d1:a1:b1:a1:ce'' = Some (Inr (PyDict d)) \<and>
       map fst d = [PyBytes ''a''] \<and> map_of d (PyBytes ''a'') = Some (PyBytes ''c'')"
proof -
  have b: "bencoding (PyDict [(PyBytes ''a'', PyBytes ''b''), (PyBytes ''a'', PyBytes ''c'')])
      = ''d1:a1:b1:a1:ce''"
    by (simp add: str_nat.simps digit_char_def)
  from decode_bytes_duplicate_keys
    [of "[(PyBytes ''a'', PyBytes ''b''), (PyBytes ''a'', PyBytes ''c'')]", unfolded b]
  show ?thesis
    by (auto simp: key_order_def)
qed

text \<open>
  Claim C5 fails as stated: nothing in the grammar looks at the kind of a key; an integer
  key is accepted.
\<close>

theorem decode_bytes_integer_key_counterexample:
  "decode_bytes ''di1e1:ae'' = Some (Inr (PyDict [(PyInt 1, PyBytes ''a'')]))"
  by code_simp

text \<open>
  Claim C5, amended. For every buffer that is the bencoding of dictionary entries (any
  keys and values, all readable by the lexer and themselves well formed): when every key
  is a byte string or an integer, decoding succeeds and returns a dictionary with exactly
  those keys, an integer key as well as any other; when some key is a list or a
  dictionary, decoding fails with the \<open>TypeError\<close> that \<open>dict\<close> raises for an unhashable
  key, which is neither a grammar error nor wrapped in \<open>DecodeError\<close>.
\<close>

theorem decode_bytes_dictionary_keys:
  assumes "list_all (\<lambda>(k, v). canonical k \<and> canonical v) kvs"
  shows "(list_all (\<lambda>(k, v). hashable k) kvs \<longrightarrow>
            (\<exists>d. decode_bytes (bencoding (PyDict kvs)) = Some (Inr (PyDict d)) \<and>
                 set (map fst d) = set (map fst kvs))) \<and>
         (\<not> list_all (\<lambda>(k, v). hashable k) kvs \<longrightarrow>
            decode_bytes (bencoding (PyDict kvs)) = Some (Inl TypeError))"
proof (intro conjI impI)
  assume h: "list_all (\<lambda>(k, v). hashable k) kvs"
  from py_dict_result [OF h] obtain d where
    d: "py_dict kvs = Inr d" "map fst d = key_order (map fst kvs)"
    by blast
  from d(2) have "set (map fst d) = set (map fst kvs)"
    by (simp only: key_order_set)
  with d(1) decode_bytes_entries [OF assms]
  show "\<exists>d. decode_bytes (bencoding (PyDict kvs)) = Some (Inr (PyDict d)) \<and>
          set (map fst d) = set (map fst kvs)"
    by (simp add: to_dict_def to_list_def)
next
  assume "\<not> list_all (\<lambda>(k, v). hashable k) kvs"
  from dict_update_unhashable [OF this, of "[]"] decode_bytes_entries [OF assms]
  show "decode_bytes (bencoding (PyDict kvs)) = Some (Inl TypeError)"
    by (simp add: to_dict_def to_list_def py_dict_def)
qed

theorem decode_bytes_dictionary_keys_witness:
  "(\<exists>d. decode_bytes ''di1e1:ae'' = Some (Inr (PyDict d)) \<and>
        set (map fst d) = {PyInt 1}) \<and>
   decode_bytes ''dle1:ae'' = Some (Inl TypeError)"
proof -
  have b1: "bencoding (PyDict [(PyInt 1, PyBytes ''a'')]) = ''di1e1:ae''"
    by (simp add: str_nat.simps digit_char_def str_int_def)
  have b2: "bencoding (PyDict [(PyList [], PyBytes ''a'')]) = ''dle1:ae''"
    by (simp add: str_nat.simps digit_char_def)
  from decode_bytes_dictionary_keys [of "[(PyInt 1, PyBytes ''a'')]", unfolded b1]
    decode_bytes_dictionary_keys [of "[(PyList [], PyBytes ''a'')]", unfolded b2]
  show ?thesis
    by auto
qed

section \<open>A byte string longer than the buffer\<close>

lemma value_run_String:
  assumes "i < length tokens" "view (tokens ! i) = (''String'', Some (str_nat n @ '':'' @ b))"
  shows "outcome (value_run (Suc m)) tokens i (Inr (PyBytes b)) (Suc i)"
proof -
  have "outcome str_decl tokens i (Inr (PyBytes b)) (Suc i)"
    using str_decl_accepts [OF assms] by (simp add: outcome_def)
  moreover have "rejects integer_decl tokens i"
    by (rule integer_decl_rejects) (simp add: assms)
  moreover have "rejects (dict_decl (Suc m) (value_run m)) tokens i"
    by (rule dict_decl_rejects) (simp add: assms)
  moreover have "rejects (list_decl (Suc m) (value_run m)) tokens i"
    by (rule list_decl_rejects) (simp add: assms)
  ultimately show ?thesis
    unfolding value_run.simps by (intro outcome_alt_second)
qed

lemma decode_tokens_String:
  assumes "view tok = (''String'', Some (str_nat n @ '':'' @ b))"
  shows "decode_tokens [tok] = Some (Inr (PyBytes b))"
proof -
  have "outcome (value_run (Suc (Suc 0))) [tok] 0 (Inr (PyBytes b)) (Suc 0)"
    by (rule value_run_String [of 0 "[tok]" n b]) (simp_all add: assms)
  then have "outcome (bencode_decl (Suc (Suc 0))) [tok] 0 (Inr (PyBytes b)) (length [tok])"
    unfolding bencode_decl_def
    using p_finished_accepts [of "[tok]"] by (intro outcome_ignored_second) simp_all
  then obtain m where
    "bencode_decl (Suc (Suc 0)) [tok] (State 0 0) = Some (Inr (PyBytes b, State (Suc 0) m))"
    by (fastforce simp: outcome_def accepts_def)
  then show ?thesis
    by (simp add: decode_tokens_def decode_tokens_bounded_def parse_def)
qed

lemma Lexer_loop_overlong_string:
  assumes "length body < n" "drop i source = str_nat n @ '':'' @ body"
  shows "\<exists>tok. Lexer_loop bencode_specs source i p = Some (Inr [tok]) \<and>
           view tok = (''String'', Some (str_nat n @ '':'' @ body))"
proof -
  from assms(2) have d: "drop i source = str_nat n @ CHR '':'' # body" by simp
  from assms(1) have "n \<noteq> 0" by simp
  with str_nat_Cons [of n] obtain c cs where c: "str_nat n = c # cs" "c \<noteq> CHR ''0''"
    by auto
  from assms(1) have t: "take n body = body" by simp
  from lex_String [OF d c(1) str_nat_digits c(2) py_int_str_nat, of p] t
  obtain tok q where
    l: "lexes source i p [tok] (i + length (str_nat n @ CHR '':'' # body)) q"
    and v: "view tok = (''String'', Some (str_nat n @ CHR '':'' # body))"
    by auto
  from d have "length (drop i source) = length (str_nat n @ CHR '':'' # body)" by simp
  then have e: "i + length (str_nat n @ CHR '':'' # body) = length source" by simp
  have "Lexer_loop bencode_specs source (length source) q = Some (Inr [])"
    by (subst Lexer_loop.simps) simp
  with l e have "Lexer_loop bencode_specs source i p = Some (Inr [tok])"
    by (simp add: lexes_def yield_def)
  with v show ?thesis by auto
qed

text \<open>
  Claim C6 fails as stated: the slice \<open>source[start_index:str_last]\<close> of
  \<open>StringToken.match_spec\<close> is cut at the end of the buffer without any check, so the
  token is emitted and the buffer decodes.
\<close>

theorem decode_bytes_overlong_string_counterexample:
  "decode_bytes ''5:abc'' = Some (Inr (PyBytes ''abc''))"
  by code_simp

text \<open>
  Claim C6, amended. Where a byte-string token declares more bytes than remain after its
  colon, the lexer raises no error: from there it emits one \<open>String\<close> token that holds the
  prefix and all the bytes that remain, and ends normally. A buffer that consists of such
  a token decodes to the byte string of the bytes that remain.
\<close>

theorem decode_bytes_overlong_string:
  assumes "length body < n" "drop i source = str_nat n @ '':'' @ body"
  shows "(\<exists>tok. Lexer_loop bencode_specs source i p = Some (Inr [tok]) \<and>
            view tok = (''String'', Some (str_nat n @ '':'' @ body))) \<and>
         decode_bytes (str_nat n @ '':'' @ body) = Some (Inr (PyBytes body))"
proof
  show "\<exists>tok. Lexer_loop bencode_specs source i p = Some (Inr [tok]) \<and>
          view tok = (''String'', Some (str_nat n @ '':'' @ body))"
    by (rule Lexer_loop_overlong_string [OF assms])
next
  have "drop 0 (str_nat n @ '':'' @ body) = str_nat n @ '':'' @ body" by simp
  from Lexer_loop_overlong_string [OF assms(1) this, of "(0, 0)"] obtain tok where
    t: "tokenize (str_nat n @ '':'' @ body) = Some (Inr [tok])"
       "view tok = (''String'', Some (str_nat n @ '':'' @ body))"
    by (auto simp: tokenize_def Lexer_call_def)
  from decode_tokens_String [OF t(2)] t(1)
  show "decode_bytes (str_nat n @ '':'' @ body) = Some (Inr (PyBytes body))"
    by (simp add: decode_bytes_def)
qed

theorem decode_bytes_overlong_string_witness:
  "length ''abc'' < (5::nat) \<and> drop 0 ''5:abc'' = str_nat 5 @ '':'' @ ''abc'' \<and>
   (\<exists>tok. Lexer_loop bencode_specs ''5:abc'' 0 (0, 0) = Some (Inr [tok]) \<and>
      view tok = (''String'', Some ''5:abc'')) \<and>
   decode_bytes ''5:abc'' = Some (Inr (PyBytes ''abc''))"
proof -
  have s: "str_nat 5 = ''5''"
    by (simp add: str_nat.simps digit_char_def)
  have h: "length ''abc'' < (5::nat)" "drop 0 ''5:abc'' = str_nat 5 @ '':'' @ ''abc''"
    by (simp_all add: s)
  from decode_bytes_overlong_string [OF h, of "(0, 0)"] h show ?thesis
    by (simp add: s)
qed

section \<open>The round trip\<close>

lemma bytes_join_map:
  "(\<And>x. x \<in> set xs \<Longrightarrow> f x = Inr (g x)) \<Longrightarrow> bytes_join (map f xs) = Inr (concat (map g xs))"
  by (induction xs) simp_all

lemma encode_bytes_bencoding:
  "decodable v \<Longrightarrow> int_free v \<Longrightarrow> encode_bytes v = Inr (bencoding v)"
proof (induction v)
  case (PyList xs)
  then have "bytes_join (map encode_bytes xs) = Inr (concat (map bencoding xs))"
    by (intro bytes_join_map) (auto simp: list_all_iff)
  then show ?case by simp
next
  case (PyDict kvs)
  have "(encode_pair \<circ> map_prod encode_bytes encode_bytes) x =
      Inr ((\<lambda>(k, v). bencoding k @ bencoding v) x)" if "x \<in> set kvs" for x
  proof -
    obtain k v where x: "x = (k, v)" by (cases x)
    with that PyDict.prems have "decodable k" "decodable v" "int_free k" "int_free v"
      by (auto simp: list_all_iff)
    moreover from x have "k \<in> Basic_BNFs.fsts x" "v \<in> Basic_BNFs.snds x" by simp_all
    ultimately have "encode_bytes k = Inr (bencoding k)" "encode_bytes v = Inr (bencoding v)"
      using PyDict.IH that by blast+
    then show ?thesis by (simp add: x encode_pair_def)
  qed
  then have "bytes_join (map (encode_pair \<circ> map_prod encode_bytes encode_bytes) kvs) =
      Inr (concat (map (\<lambda>(k, v). bencoding k @ bencoding v) kvs))"
    by (rule bytes_join_map)
  then show ?case by simp
qed simp_all

text \<open>
  Claim C2 asks that decoding the encoding of any value give the value back. With an
  integer in the value the encoder writes zero bytes instead of digits (claim C1), and
  the decoder cannot read the result; with an empty byte string the encoder writes \<open>0:\<close>,
  which the lexer refuses (claim C7).
\<close>

theorem decode_encode_defect:
  "encode_bytes (PyInt 0) = Inr ''ie'' \<and>
   decode_bytes ''ie'' =
     Some (Inl (NoParseError ''got unexpected token'' \<lparr>pos = 0, smax = 1\<rparr>)) \<and>
   encode_bytes (PyList [PyBytes '''']) = Inr ''l0:e'' \<and>
   decode_bytes ''l0:e'' = Some (Inl (DecodeError (SyntaxError (0, 2) CHR '':'')))"
  by code_simp

text \<open>
  Apart from those two defects the round trip holds: for every value built from
  non-empty byte strings, lists and dictionaries (hashable keys, each once), encoding
  succeeds with the bencoding of the specification and decoding gives the value back,
  the entries of every dictionary in their order.
\<close>

theorem decode_encode_round_trip:
  assumes "canonical v" "int_free v"
  shows "encode_bytes v = Inr (bencoding v) \<and> decode_bytes (bencoding v) = Some (Inr v)"
  using encode_bytes_bencoding [OF canonical_decodable [OF assms(1)] assms(2)]
    decode_bytes_bencoding [OF canonical_decodable [OF assms(1)]]
    canonical_decoded [OF assms(1)]
  by simp

end
